theory Spec2Isabelle
  imports Main
begin

section \<open>Strings of the host language\<close>

text \<open>
  A string is the list of its code units. The development covers documents whose code
  units lie below 256, so a code unit is a \<open>char\<close>. The string methods used by
  \<open>SimpleYamlParser\<close> (src/utils/helpers.ts) are written out below.
\<close>

abbreviation LF :: char where "LF \<equiv> CHR 0x0A"
abbreviation TAB :: char where "TAB \<equiv> CHR 0x09"
abbreviation SPC :: char where "SPC \<equiv> CHR 0x20"
abbreviation DQ :: char where "DQ \<equiv> CHR 0x22"
abbreviation SQ :: char where "SQ \<equiv> CHR 0x27"
abbreviation BSL :: char where "BSL \<equiv> CHR 0x5C"

text \<open>The white space that \<open>String.prototype.trim\<close> strips, below code unit 256.\<close>

definition isWhitespace :: "char \<Rightarrow> bool" where
  "isWhitespace c \<longleftrightarrow>
     c = TAB \<or> c = LF \<or> c = CHR 0x0B \<or> c = CHR 0x0C \<or> c = CHR 0x0D \<or> c = SPC \<or> c = CHR 0xA0"

definition trim :: "string \<Rightarrow> string" where
  "trim s = rev (dropWhile isWhitespace (rev (dropWhile isWhitespace s)))"

definition startsWith :: "string \<Rightarrow> string \<Rightarrow> bool" where
  "startsWith s p \<longleftrightarrow> take (length p) s = p"

definition endsWith :: "string \<Rightarrow> string \<Rightarrow> bool" where
  "endsWith s p \<longleftrightarrow> drop (length s - length p) s = p \<and> length p \<le> length s"

text \<open>\<open>s.indexOf(c)\<close>: the first position of \<open>c\<close>, or \<open>-1\<close>.\<close>

fun indexOf :: "string \<Rightarrow> char \<Rightarrow> int" where
  "indexOf [] c = -1"
| "indexOf (x # xs) c =
     (if x = c then 0 else (let i = indexOf xs c in if i < 0 then -1 else i + 1))"

text \<open>\<open>s.split('\n')\<close>: never empty; the empty string splits into one empty line.\<close>

fun split :: "string \<Rightarrow> string list" where
  "split [] = [[]]"
| "split (c # cs) =
     (if c = LF then [] # split cs
      else (case split cs of [] \<Rightarrow> [[c]] | l # ls \<Rightarrow> (c # l) # ls))"

text \<open>\<open>'  '.repeat(indent)\<close>.\<close>

definition spaces :: "nat \<Rightarrow> string" where
  "spaces n = concat (replicate n [SPC, SPC])"

section \<open>Values\<close>

text \<open>
  Primitive values. A number that is an integer of magnitude at most \<open>2^53\<close> is kept
  exactly (\<open>Number\<close>). Every other number the parser can produce is the double nearest
  to a decimal text; it is kept as that text (\<open>Double\<close>) and its arithmetic is not
  interpreted, so two \<open>Double\<close> values with different texts may denote the same double.
\<close>

datatype prim =
    Undefined
  | Null
  | Boolean bool
  | Number int
  | Double string
  | Str string

text \<open>The value trees that \<open>stringify\<close> consumes and \<open>parse\<close> returns.\<close>

datatype jvalue =
    Scalar prim
  | Mapping "(string \<times> jvalue) list"
  | Sequence "jvalue list"

section \<open>Scalar coercion\<close>

definition isDigit :: "char \<Rightarrow> bool" where
  "isDigit c \<longleftrightarrow> c \<in> set ''0123456789''"

definition digitVal :: "char \<Rightarrow> int" where
  "digitVal c = of_char c - 48"

definition digitsToInt :: "string \<Rightarrow> int" where
  "digitsToInt ds = foldl (\<lambda>a c. 10 * a + digitVal c) 0 ds"

definition stripMinus :: "string \<Rightarrow> string" where
  "stripMinus s = (case s of [] \<Rightarrow> [] | c # cs \<Rightarrow> if c = CHR ''-'' then cs else s)"

text \<open>The regular expression \<open>/^-?\d+$/\<close>.\<close>

definition isIntegerText :: "string \<Rightarrow> bool" where
  "isIntegerText s \<longleftrightarrow> stripMinus s \<noteq> [] \<and> list_all isDigit (stripMinus s)"

text \<open>The regular expression \<open>/^-?\d*\.\d+$/\<close>.\<close>

definition isDecimalText :: "string \<Rightarrow> bool" where
  "isDecimalText s \<longleftrightarrow>
     (case dropWhile isDigit (stripMinus s) of
        [] \<Rightarrow> False
      | c # fr \<Rightarrow> c = CHR ''.'' \<and> fr \<noteq> [] \<and> list_all isDigit fr)"

text \<open>
  \<open>parseInt(value, 10)\<close> on a text that matched the integer pattern: exact up to
  \<open>2^53\<close>, a rounded double beyond.
\<close>

definition parseIntText :: "string \<Rightarrow> prim" where
  "parseIntText s =
     (let n = digitsToInt (stripMinus s);
          v = (if startsWith s ''-'' then - n else n)
      in if n \<le> 9007199254740992 then Number v else Double s)"

definition sliceQuotes :: "string \<Rightarrow> string" where
  "sliceQuotes s = butlast (tl s)"

definition parseValue :: "string \<Rightarrow> prim" where
  "parseValue v =
     (if v = ''true'' then Boolean True
      else if v = ''false'' then Boolean False
      else if v = ''null'' \<or> v = ''~'' then Null
      else if v = [] then Str []
      else if isIntegerText v then parseIntText v
      else if isDecimalText v then Double v
      else if (startsWith v [DQ] \<and> endsWith v [DQ]) \<or> (startsWith v [SQ] \<and> endsWith v [SQ])
        then Str (sliceQuotes v)
      else Str v)"

text \<open>\<open>Number.prototype.toString\<close> on an exactly kept integer.\<close>

function digitsOf :: "int \<Rightarrow> string" where
  "digitsOf n =
     (if n < 10 then [char_of (48 + n)] else digitsOf (n div 10) @ [char_of (48 + n mod 10)])"
  by pat_completeness auto
termination
  by (relation "measure nat") auto

declare digitsOf.simps [simp del]

definition intToString :: "int \<Rightarrow> string" where
  "intToString i = (if i < 0 then CHR ''-'' # digitsOf (- i) else digitsOf i)"

definition needsQuotes :: "string \<Rightarrow> bool" where
  "needsQuotes s \<longleftrightarrow>
     CHR '':'' \<in> set s \<or> CHR ''#'' \<in> set s \<or> LF \<in> set s \<or>
     startsWith s ''-'' \<or> startsWith s ''['' \<or> startsWith s ''{''"

text \<open>\<open>value.replace(/"/g, '\\"')\<close>.\<close>

definition escapeQuotes :: "string \<Rightarrow> string" where
  "escapeQuotes s = concat (map (\<lambda>c. if c = DQ then [BSL, DQ] else [c]) s)"

text \<open>
  \<open>formatValue\<close>. The parameter \<open>d2s\<close> is the run time's number-to-string conversion
  on the doubles that are kept as text.
\<close>

fun formatValue :: "(string \<Rightarrow> string) \<Rightarrow> prim \<Rightarrow> string" where
  "formatValue d2s Undefined = ''null''"
| "formatValue d2s Null = ''null''"
| "formatValue d2s (Boolean b) = (if b then ''true'' else ''false'')"
| "formatValue d2s (Number n) = intToString n"
| "formatValue d2s (Double t) = d2s t"
| "formatValue d2s (Str s) =
     (if needsQuotes s then [DQ] @ escapeQuotes s @ [DQ] else s)"

section \<open>The encoder\<close>

text \<open>
  \<open>stringify(obj, indent)\<close>. \<open>stringifyItems\<close> is the loop over the items of a
  top-level array, \<open>stringifyEntries\<close> the loop over \<open>Object.entries(obj)\<close>, and
  \<open>stringifyArrayValue\<close> the inner loop over an array bound to a key.
\<close>

fun stringify :: "(string \<Rightarrow> string) \<Rightarrow> jvalue \<Rightarrow> nat \<Rightarrow> string"
  and stringifyItems :: "(string \<Rightarrow> string) \<Rightarrow> jvalue list \<Rightarrow> nat \<Rightarrow> string"
  and stringifyEntries :: "(string \<Rightarrow> string) \<Rightarrow> (string \<times> jvalue) list \<Rightarrow> nat \<Rightarrow> string"
  and stringifyArrayValue :: "(string \<Rightarrow> string) \<Rightarrow> jvalue list \<Rightarrow> nat \<Rightarrow> string"
where
  "stringify d2s (Sequence xs) n = stringifyItems d2s xs n"
| "stringify d2s (Mapping kvs) n = stringifyEntries d2s kvs n"
| "stringify d2s (Scalar p) n = []"
| "stringifyItems d2s [] n = []"
| "stringifyItems d2s (Scalar p # xs) n =
     spaces n @ ''- '' @ formatValue d2s p @ [LF] @ stringifyItems d2s xs n"
| "stringifyItems d2s (Mapping kvs # xs) n =
     spaces n @ ''- '' @ [LF] @ stringify d2s (Mapping kvs) (n + 1) @ stringifyItems d2s xs n"
| "stringifyItems d2s (Sequence ys # xs) n =
     spaces n @ ''- '' @ [LF] @ stringify d2s (Sequence ys) (n + 1) @ stringifyItems d2s xs n"
| "stringifyEntries d2s [] n = []"
| "stringifyEntries d2s ((k, Sequence ys) # kvs) n =
     spaces n @ k @ '':'' @ [LF] @ stringifyArrayValue d2s ys n @ stringifyEntries d2s kvs n"
| "stringifyEntries d2s ((k, Mapping m) # kvs) n =
     spaces n @ k @ '':'' @ [LF] @ stringify d2s (Mapping m) (n + 1) @ stringifyEntries d2s kvs n"
| "stringifyEntries d2s ((k, Scalar p) # kvs) n =
     spaces n @ k @ '': '' @ formatValue d2s p @ [LF] @ stringifyEntries d2s kvs n"
| "stringifyArrayValue d2s [] n = []"
| "stringifyArrayValue d2s (Scalar p # xs) n =
     spaces n @ ''  - '' @ formatValue d2s p @ [LF] @ stringifyArrayValue d2s xs n"
| "stringifyArrayValue d2s (Mapping kvs # xs) n =
     spaces n @ ''  - '' @ [LF] @ stringify d2s (Mapping kvs) (n + 2) @ stringifyArrayValue d2s xs n"
| "stringifyArrayValue d2s (Sequence ys # xs) n =
     spaces n @ ''  - '' @ [LF] @ stringify d2s (Sequence ys) (n + 2) @ stringifyArrayValue d2s xs n"

section \<open>The store\<close>

text \<open>
  \<open>parse\<close> builds its result by mutating objects that are shared between the result
  and the container stack. Objects and arrays therefore live in a store, and a value is
  a primitive or a reference into it. A fresh object or array takes the next address.
\<close>

type_synonym addr = nat

datatype jsval = Prim prim | Ref addr

datatype cell = ObjCell "(string \<times> jsval) list" | ArrCell "jsval list"

type_synonym heap = "cell list"

definition cellAt :: "heap \<Rightarrow> addr \<Rightarrow> cell option" where
  "cellAt h a = (if a < length h then Some (h ! a) else None)"

definition alloc :: "heap \<Rightarrow> cell \<Rightarrow> heap \<times> addr" where
  "alloc h c = (h @ [c], length h)"

subsection \<open>Properties of a plain object\<close>

text \<open>
  The own properties of an object are kept in the order of \<open>Object.keys\<close>: array
  indices (canonical numerals up to \<open>2^32 - 2\<close>) first, in ascending order, then the
  other keys in the order of their creation.
\<close>

definition isArrayIndex :: "string \<Rightarrow> bool" where
  "isArrayIndex k \<longleftrightarrow>
     k \<noteq> [] \<and> list_all isDigit k \<and> (k = ''0'' \<or> hd k \<noteq> CHR ''0'') \<and>
     digitsToInt k \<le> 4294967294"

fun insertIndexProp :: "string \<Rightarrow> jsval \<Rightarrow> (string \<times> jsval) list \<Rightarrow> (string \<times> jsval) list" where
  "insertIndexProp k v [] = [(k, v)]"
| "insertIndexProp k v (p # ps) =
     (if isArrayIndex (fst p) \<and> digitsToInt (fst p) < digitsToInt k
      then p # insertIndexProp k v ps else (k, v) # p # ps)"

fun updateProp :: "string \<Rightarrow> jsval \<Rightarrow> (string \<times> jsval) list \<Rightarrow> (string \<times> jsval) list" where
  "updateProp k v [] = []"
| "updateProp k v (p # ps) = (if fst p = k then (k, v) # ps else p # updateProp k v ps)"

definition setProp :: "(string \<times> jsval) list \<Rightarrow> string \<Rightarrow> jsval \<Rightarrow> (string \<times> jsval) list" where
  "setProp ps k v =
     (if k \<in> set (map fst ps) then updateProp k v ps
      else if isArrayIndex k then insertIndexProp k v ps
      else ps @ [(k, v)])"

text \<open>
  The members every plain object inherits from \<open>Object.prototype\<close>. Reading one of
  them from an object that has no own property of that name yields a function (the
  prototype itself for \<open>__proto__\<close>): a truthy value that is no array.
\<close>

definition objectPrototypeNames :: "string list" where
  "objectPrototypeNames =
     [''constructor'', ''__defineGetter__'', ''__defineSetter__'', ''hasOwnProperty'',
      ''__lookupGetter__'', ''__lookupSetter__'', ''isPrototypeOf'',
      ''propertyIsEnumerable'', ''toString'', ''valueOf'', ''__proto__'',
      ''toLocaleString'']"

datatype looked = Own jsval | Inherited | Absent

definition readProp :: "(string \<times> jsval) list \<Rightarrow> string \<Rightarrow> looked" where
  "readProp ps k =
     (case map_of ps k of
        Some v \<Rightarrow> Own v
      | None \<Rightarrow> if k \<in> set objectPrototypeNames then Inherited else Absent)"

text \<open>
  The faults of \<open>parse\<close>. \<open>TypeError\<close> is the exception of the run time.
  An assignment to the key \<open>__proto__\<close> replaces the prototype of the object instead
  of creating a property; the development does not follow a document past that point
  and ends with \<open>ProtoAssignment\<close>. \<open>Stuck\<close> marks the states that the stack
  discipline excludes (a frame that is not a plain object of the store).
\<close>

datatype error = TypeError | ProtoAssignment | Stuck

definition assignProp :: "(string \<times> jsval) list \<Rightarrow> string \<Rightarrow> jsval \<Rightarrow> error + (string \<times> jsval) list" where
  "assignProp ps k v = (if k = ''__proto__'' then Inl ProtoAssignment else Inr (setProp ps k v))"

subsection \<open>Truthiness and shape tests\<close>

text \<open>
  A double kept as text is zero exactly when the decimal it was read from rounds to
  zero, that is when it is at most \<open>2^-1075\<close>.
\<close>

definition doubleIsZero :: "string \<Rightarrow> bool" where
  "doubleIsZero t =
     (let d = stripMinus t;
          ip = takeWhile isDigit d;
          fr = tl (dropWhile isDigit d)
      in digitsToInt (ip @ fr) * 2 ^ 1075 \<le> 10 ^ length fr)"

fun primTruthy :: "prim \<Rightarrow> bool" where
  "primTruthy Undefined = False"
| "primTruthy Null = False"
| "primTruthy (Boolean b) = b"
| "primTruthy (Number n) = (n \<noteq> 0)"
| "primTruthy (Double t) = (\<not> doubleIsZero t)"
| "primTruthy (Str s) = (s \<noteq> [])"

fun truthy :: "looked \<Rightarrow> bool" where
  "truthy (Own (Ref a)) = True"
| "truthy (Own (Prim p)) = primTruthy p"
| "truthy Inherited = True"
| "truthy Absent = False"

text \<open>\<open>Array.isArray(x)\<close>.\<close>

fun isArray :: "heap \<Rightarrow> looked \<Rightarrow> bool" where
  "isArray h (Own (Ref a)) = (case cellAt h a of Some (ArrCell xs) \<Rightarrow> True | _ \<Rightarrow> False)"
| "isArray h _ = False"

text \<open>\<open>typeof x === 'object' && Object.keys(x).length === 0\<close>, for \<open>x\<close> not null.\<close>

fun isEmptyObject :: "heap \<Rightarrow> jsval \<Rightarrow> bool" where
  "isEmptyObject h (Ref a) =
     (case cellAt h a of Some (ObjCell ps) \<Rightarrow> ps = [] | Some (ArrCell xs) \<Rightarrow> xs = [] | None \<Rightarrow> False)"
| "isEmptyObject h (Prim p) = False"

section \<open>The decoder\<close>

text \<open>
  A frame of the container stack: \<open>{ obj, indent, key }\<close>. The stack is kept with
  its last element (the top) at the head of the list.
\<close>

record frame =
  obj :: addr
  indent :: int
  key :: "string option"

record pstate =
  heap :: heap
  stack :: "frame list"

text \<open>\<open>getIndentLevel\<close>: a space counts one, a tab two, up to the first other character.\<close>

fun getIndentLevel :: "string \<Rightarrow> int" where
  "getIndentLevel [] = 0"
| "getIndentLevel (c # cs) =
     (if c = SPC then 1 + getIndentLevel cs
      else if c = TAB then 2 + getIndentLevel cs
      else 0)"

text \<open>
  The loop \<open>while (stack.length > 1 && stack[stack.length - 1].indent >= indent) stack.pop()\<close>.
\<close>

fun unwind :: "frame list \<Rightarrow> int \<Rightarrow> frame list" where
  "unwind (f # g # fs) w = (if indent f \<ge> w then unwind (g # fs) w else f # g # fs)"
| "unwind fs w = fs"

text \<open>\<open>targetArray.push(parsedValue)\<close>: a fault unless the target is an array.\<close>

definition pushItem :: "heap \<Rightarrow> looked \<Rightarrow> prim \<Rightarrow> error + heap" where
  "pushItem h target p =
     (case target of
        Own (Ref a) \<Rightarrow>
          (case cellAt h a of
             Some (ArrCell xs) \<Rightarrow> Inr (h[a := ArrCell (xs @ [Prim p])])
           | _ \<Rightarrow> Inl TypeError)
      | _ \<Rightarrow> Inl TypeError)"

text \<open>
  The choice of the target array in \<open>handleArrayItem\<close>, for the parent object at
  address \<open>pa\<close> with properties \<open>ps\<close>. It returns the store and the target.
  \<open>fallbackTarget\<close> is the \<open>else\<close> branch: the last key when it is bound to a
  placeholder, the key \<open>items\<close> otherwise.
\<close>

definition freshArrayAt :: "heap \<Rightarrow> addr \<Rightarrow> (string \<times> jsval) list \<Rightarrow> string \<Rightarrow> error + heap \<times> looked" where
  "freshArrayAt h pa ps k =
     (case alloc h (ArrCell []) of
        (h1, a) \<Rightarrow>
          (case assignProp ps k (Ref a) of
             Inl e \<Rightarrow> Inl e
           | Inr ps' \<Rightarrow> Inr (h1[pa := ObjCell ps'], Own (Ref a))))"

definition lastKeyIsPlaceholder :: "heap \<Rightarrow> (string \<times> jsval) list \<Rightarrow> bool" where
  "lastKeyIsPlaceholder h ps \<longleftrightarrow>
     ps \<noteq> [] \<and> fst (last ps) \<noteq> [] \<and>
     (snd (last ps) = Prim Null \<or> snd (last ps) = Prim Undefined \<or> isEmptyObject h (snd (last ps)))"

definition fallbackTarget :: "heap \<Rightarrow> addr \<Rightarrow> (string \<times> jsval) list \<Rightarrow> error + heap \<times> looked" where
  "fallbackTarget h pa ps =
     (if lastKeyIsPlaceholder h ps then freshArrayAt h pa ps (fst (last ps))
      else if truthy (readProp ps ''items'') then Inr (h, readProp ps ''items'')
      else freshArrayAt h pa ps ''items'')"

definition selectTarget :: "heap \<Rightarrow> addr \<Rightarrow> (string \<times> jsval) list \<Rightarrow> string option \<Rightarrow> error + heap \<times> looked" where
  "selectTarget h pa ps arrayKey =
     (case arrayKey of
        None \<Rightarrow> fallbackTarget h pa ps
      | Some k \<Rightarrow>
          if k \<noteq> [] \<and> truthy (readProp ps k) then
            (if \<not> isArray h (readProp ps k) then freshArrayAt h pa ps k
             else Inr (h, readProp ps k))
          else fallbackTarget h pa ps)"

definition handleArrayItem :: "pstate \<Rightarrow> int \<Rightarrow> string \<Rightarrow> string option \<Rightarrow> error + pstate" where
  "handleArrayItem st w v arrayKey =
     (case unwind (stack st) w of
        [] \<Rightarrow> Inl Stuck
      | fr # below \<Rightarrow>
          (case cellAt (heap st) (obj fr) of
             Some (ObjCell ps) \<Rightarrow>
               (case selectTarget (heap st) (obj fr) ps arrayKey of
                  Inl e \<Rightarrow> Inl e
                | Inr (h1, target) \<Rightarrow>
                    (case pushItem h1 target (parseValue v) of
                       Inl e \<Rightarrow> Inl e
                     | Inr h2 \<Rightarrow> Inr \<lparr>heap = h2, stack = fr # below\<rparr>))
           | _ \<Rightarrow> Inl Stuck))"

definition handleKeyValue :: "pstate \<Rightarrow> int \<Rightarrow> string \<Rightarrow> string \<Rightarrow> error + pstate" where
  "handleKeyValue st w k v =
     (case unwind (stack st) w of
        [] \<Rightarrow> Inl Stuck
      | fr # below \<Rightarrow>
          (case cellAt (heap st) (obj fr) of
             Some (ObjCell ps) \<Rightarrow>
               (if v = [] then
                  (case alloc (heap st) (ObjCell []) of
                     (h1, a) \<Rightarrow>
                       (case assignProp ps k (Ref a) of
                          Inl e \<Rightarrow> Inl e
                        | Inr ps' \<Rightarrow>
                            Inr \<lparr>heap = h1[obj fr := ObjCell ps'],
                                 stack = \<lparr>obj = a, indent = w, key = Some k\<rparr> # fr # below\<rparr>))
                else
                  (case assignProp ps k (Prim (parseValue v)) of
                     Inl e \<Rightarrow> Inl e
                   | Inr ps' \<Rightarrow> Inr \<lparr>heap = (heap st)[obj fr := ObjCell ps'], stack = fr # below\<rparr>))
           | _ \<Rightarrow> Inl Stuck))"

text \<open>
  One turn of the loop of \<open>parse\<close> on a line. \<open>nextIsItem\<close> is the look-ahead
  \<open>i + 1 < lines.length && lines[i + 1].trim().startsWith('- ')\<close>.
\<close>

definition nextIsItem :: "string list \<Rightarrow> bool" where
  "nextIsItem rest = (case rest of [] \<Rightarrow> False | nextLine # _ \<Rightarrow> startsWith (trim nextLine) ''- '')"

definition parseLine :: "pstate \<times> string option \<Rightarrow> string \<Rightarrow> bool \<Rightarrow> error + pstate \<times> string option" where
  "parseLine s line ahead =
     (case s of (st, currentArrayKey) \<Rightarrow>
       (let trimmedLine = trim line in
        if trimmedLine = [] \<or> startsWith trimmedLine ''#'' then Inr s
        else if startsWith trimmedLine ''- '' then
          (case handleArrayItem st (getIndentLevel line) (trim (drop 2 trimmedLine)) currentArrayKey of
             Inl e \<Rightarrow> Inl e
           | Inr st' \<Rightarrow> Inr (st', currentArrayKey))
        else
          (let colonIndex = indexOf trimmedLine (CHR '':'') in
           if colonIndex > 0 then
             (let k = trim (take (nat colonIndex) trimmedLine);
                  v = trim (drop (nat colonIndex + 1) trimmedLine);
                  cak = (if v = [] \<and> ahead then Some k else currentArrayKey)
              in case handleKeyValue st (getIndentLevel line) k v of
                   Inl e \<Rightarrow> Inl e
                 | Inr st' \<Rightarrow> Inr (st', cak))
           else Inr s)))"

fun parseLoop :: "pstate \<times> string option \<Rightarrow> string list \<Rightarrow> error + pstate \<times> string option" where
  "parseLoop s [] = Inr s"
| "parseLoop s (line # rest) =
     (case parseLine s line (nextIsItem rest) of
        Inl e \<Rightarrow> Inl e
      | Inr s' \<Rightarrow> parseLoop s' rest)"

text \<open>
  Reading a value tree off the store. Every reference stored in a cell is younger than
  the cell, so the number of cells bounds the depth of the tree.
\<close>

fun reify :: "nat \<Rightarrow> heap \<Rightarrow> jsval \<Rightarrow> jvalue" where
  "reify n h (Prim p) = Scalar p"
| "reify 0 h (Ref a) = Scalar Undefined"
| "reify (Suc n) h (Ref a) =
     (case cellAt h a of
        None \<Rightarrow> Scalar Undefined
      | Some (ObjCell ps) \<Rightarrow> Mapping (map (\<lambda>kv. (fst kv, reify n h (snd kv))) ps)
      | Some (ArrCell xs) \<Rightarrow> Sequence (map (reify n h) xs))"

definition initialState :: "pstate \<times> string option" where
  "initialState = (\<lparr>heap = [ObjCell []], stack = [\<lparr>obj = 0, indent = - 1, key = None\<rparr>]\<rparr>, None)"

text \<open>\<open>SimpleYamlParser.parse\<close>: the result is the object \<open>result\<close>, at address 0.\<close>

definition parse :: "string \<Rightarrow> error + jvalue" where
  "parse yamlString =
     (case parseLoop initialState (split yamlString) of
        Inl e \<Rightarrow> Inl e
      | Inr (st, cak) \<Rightarrow> Inr (reify (length (heap st)) (heap st) (Ref 0)))"

section \<open>Documents as lists of lines\<close>

text \<open>\<open>lines.join('\n')\<close>, the inverse of \<open>split\<close>.\<close>

fun joinLines :: "string list \<Rightarrow> string" where
  "joinLines [] = []"
| "joinLines [l] = l"
| "joinLines (l # m # ls) = l @ LF # joinLines (m # ls)"

text \<open>
  Re-indentation: every tab before the first character that is not white space becomes
  two spaces.
\<close>

fun retab :: "string \<Rightarrow> string" where
  "retab [] = []"
| "retab (c # cs) =
     (if c = TAB then SPC # SPC # retab cs
      else if isWhitespace c then c # retab cs
      else c # cs)"

definition retabDocument :: "string \<Rightarrow> string" where
  "retabDocument s = joinLines (map retab (split s))"

text \<open>
  A malformed line: not blank, not a comment, not a sequence item, and with no colon
  past its first character.
\<close>

definition isMalformed :: "string \<Rightarrow> bool" where
  "isMalformed line \<longleftrightarrow>
     trim line \<noteq> [] \<and> \<not> startsWith (trim line) ''#'' \<and>
     \<not> startsWith (trim line) ''- '' \<and> CHR '':'' \<notin> set (tl (trim line))"

definition blankMalformed :: "string \<Rightarrow> string" where
  "blankMalformed line = (if isMalformed line then [] else line)"

definition blankMalformedLines :: "string \<Rightarrow> string" where
  "blankMalformedLines s = joinLines (map blankMalformed (split s))"

definition removeMalformedLines :: "string \<Rightarrow> string" where
  "removeMalformedLines s = joinLines (filter (\<lambda>l. \<not> isMalformed l) (split s))"

section \<open>Well-formed decoder states\<close>

text \<open>
  The states the decoder can reach: the stack is not empty, every frame refers to a
  plain object of the store, and so does the address of the result.
\<close>

definition isObjAt :: "heap \<Rightarrow> addr \<Rightarrow> bool" where
  "isObjAt h a = (case cellAt h a of Some (ObjCell ps) \<Rightarrow> True | _ \<Rightarrow> False)"

definition wellFormed :: "pstate \<Rightarrow> bool" where
  "wellFormed st \<longleftrightarrow>
     stack st \<noteq> [] \<and> list_all (\<lambda>f. isObjAt (heap st) (obj f)) (stack st) \<and> isObjAt (heap st) 0"

section \<open>The pending array key along the lines\<close>

text \<open>
  The key of a line that the loop of \<open>parse\<close> handles as a key with an empty value:
  the line is no blank line, comment or sequence item, and nothing but white space
  follows its first colon.
\<close>

definition emptyValueKey :: "string \<Rightarrow> string option" where
  "emptyValueKey line =
     (let trimmedLine = trim line in
      if trimmedLine = [] \<or> startsWith trimmedLine ''#'' \<or> startsWith trimmedLine ''- '' then None
      else
        (let colonIndex = indexOf trimmedLine (CHR '':'') in
         if colonIndex > 0 \<and> trim (drop (nat colonIndex + 1) trimmedLine) = []
         then Some (trim (take (nat colonIndex) trimmedLine))
         else None))"

text \<open>
  \<open>currentArrayKey\<close> after the lines \<open>ls\<close>, from its value \<open>c\<close> before them: the
  only assignment in the loop is \<open>currentArrayKey = key\<close>, on a key line with an empty
  value whose next physical line is a sequence item.
\<close>

fun pendingAfter :: "string option \<Rightarrow> string list \<Rightarrow> string option" where
  "pendingAfter c [] = c"
| "pendingAfter c (line # rest) =
     pendingAfter (if nextIsItem rest then (case emptyValueKey line of None \<Rightarrow> c | Some k \<Rightarrow> Some k) else c)
       rest"

text \<open>Some line of \<open>ls\<close> makes that assignment.\<close>

fun opensArray :: "string list \<Rightarrow> bool" where
  "opensArray [] = False"
| "opensArray (line # rest) = ((nextIsItem rest \<and> emptyValueKey line \<noteq> None) \<or> opensArray rest)"

section \<open>Stable values and their representation in the store\<close>

text \<open>
  A key that a key-value line carries unchanged: trimmed, without colon or line break,
  not opening a comment or a sequence item, and not \<open>__proto__\<close>.
\<close>

definition plainKey :: "string \<Rightarrow> bool" where
  "plainKey k \<longleftrightarrow>
     k \<noteq> [] \<and> \<not> isWhitespace (hd k) \<and> \<not> isWhitespace (last k) \<and>
     CHR '':'' \<notin> set k \<and> LF \<notin> set k \<and> hd k \<noteq> CHR ''#'' \<and> \<not> startsWith k ''- '' \<and>
     k \<noteq> ''__proto__''"

text \<open>
  The keys of an object as \<open>Object.keys\<close> lists them: no key twice, and an array
  index only after smaller array indices. \<open>keysInOrder acc ks\<close>: the keys \<open>ks\<close>
  continue the keys \<open>acc\<close> in that order, so that assigning them one after the
  other appends each at the end.
\<close>

definition appendable :: "string list \<Rightarrow> string \<Rightarrow> bool" where
  "appendable ks k \<longleftrightarrow>
     k \<notin> set ks \<and>
     (if isArrayIndex k then list_all (\<lambda>k'. isArrayIndex k' \<and> digitsToInt k' < digitsToInt k) ks
      else True)"

fun keysInOrder :: "string list \<Rightarrow> string list \<Rightarrow> bool" where
  "keysInOrder acc [] = True"
| "keysInOrder acc (k # ks) = (appendable acc k \<and> keysInOrder (acc @ [k]) ks)"

text \<open>
  A string that \<open>formatValue\<close> and \<open>parseValue\<close> carry unchanged: either it is
  quoted by \<open>formatValue\<close> and holds no double quote, or it is written bare, is
  trimmed, and reads as no other scalar and as no quoted string.
\<close>

definition plainText :: "string \<Rightarrow> bool" where
  "plainText s \<longleftrightarrow>
     LF \<notin> set s \<and>
     (if needsQuotes s then DQ \<notin> set s
      else s \<noteq> [] \<and> \<not> isWhitespace (hd s) \<and> \<not> isWhitespace (last s) \<and>
           s \<noteq> ''true'' \<and> s \<noteq> ''false'' \<and> s \<noteq> ''null'' \<and> s \<noteq> ''~'' \<and>
           \<not> isIntegerText s \<and> \<not> isDecimalText s \<and>
           \<not> (startsWith s [DQ] \<and> endsWith s [DQ]) \<and> \<not> (startsWith s [SQ] \<and> endsWith s [SQ]))"

text \<open>
  A text that the decoder reads as a number kept in its decimal text: a decimal
  literal, or an integer literal of magnitude beyond \<open>2^53\<close>.
\<close>

definition doubleText :: "string \<Rightarrow> bool" where
  "doubleText t \<longleftrightarrow>
     (if isIntegerText t then 9007199254740992 < digitsToInt (stripMinus t) else isDecimalText t)"

text \<open>
  The scalars that \<open>formatValue\<close> and \<open>parseValue\<close> carry unchanged: null, the
  booleans, the exactly kept integers, the plain strings, and every other number whose
  text is the text that the run time writes for it (\<open>d2s t = t\<close>, as \<open>1.5\<close> or
  \<open>-0.25\<close>) and is read as a number. A number that the run time writes with an
  exponent, or as \<open>NaN\<close> or \<open>Infinity\<close>, is read back as a string.
\<close>

fun stableScalar :: "(string \<Rightarrow> string) \<Rightarrow> prim \<Rightarrow> bool" where
  "stableScalar d2s Undefined = False"
| "stableScalar d2s Null = True"
| "stableScalar d2s (Boolean b) = True"
| "stableScalar d2s (Number n) = (\<bar>n\<bar> \<le> 9007199254740992)"
| "stableScalar d2s (Double t) = (d2s t = t \<and> doubleText t)"
| "stableScalar d2s (Str s) = plainText s"

text \<open>
  The value trees of the round-trip results: mappings, nested to any depth, with plain
  keys in the order of \<open>Object.keys\<close> and stable scalars at the leaves.
\<close>

fun stableValue :: "(string \<Rightarrow> string) \<Rightarrow> jvalue \<Rightarrow> bool"
  and stableEntries :: "(string \<Rightarrow> string) \<Rightarrow> (string \<times> jvalue) list \<Rightarrow> bool"
where
  "stableValue d2s (Scalar p) = stableScalar d2s p"
| "stableValue d2s (Mapping m) = (keysInOrder [] (map fst m) \<and> stableEntries d2s m)"
| "stableValue d2s (Sequence xs) = False"
| "stableEntries d2s [] = True"
| "stableEntries d2s ((k, v) # kvs) = (plainKey k \<and> stableValue d2s v \<and> stableEntries d2s kvs)"

text \<open>
  A value text that a key-value line carries unchanged: not empty, trimmed, one line.
\<close>

definition lineText :: "string \<Rightarrow> bool" where
  "lineText t \<longleftrightarrow> t \<noteq> [] \<and> \<not> isWhitespace (hd t) \<and> \<not> isWhitespace (last t) \<and> LF \<notin> set t"

text \<open>
  The value trees that \<open>stringify\<close> writes as one key-value line per entry:
  mappings, nested to any depth, with plain keys in the order of \<open>Object.keys\<close> and
  scalars whose text is a line text.
\<close>

fun lineValue :: "(string \<Rightarrow> string) \<Rightarrow> jvalue \<Rightarrow> bool"
  and lineEntries :: "(string \<Rightarrow> string) \<Rightarrow> (string \<times> jvalue) list \<Rightarrow> bool"
where
  "lineValue d2s (Scalar p) = lineText (formatValue d2s p)"
| "lineValue d2s (Mapping m) = (keysInOrder [] (map fst m) \<and> lineEntries d2s m)"
| "lineValue d2s (Sequence xs) = False"
| "lineEntries d2s [] = True"
| "lineEntries d2s ((k, v) # kvs) = (plainKey k \<and> lineValue d2s v \<and> lineEntries d2s kvs)"

text \<open>The tree in which every scalar is replaced by the coercion of its text.\<close>

fun coerced :: "(string \<Rightarrow> string) \<Rightarrow> jvalue \<Rightarrow> jvalue"
  and coercedEntries :: "(string \<Rightarrow> string) \<Rightarrow> (string \<times> jvalue) list \<Rightarrow> (string \<times> jvalue) list"
where
  "coerced d2s (Scalar p) = Scalar (parseValue (formatValue d2s p))"
| "coerced d2s (Mapping m) = Mapping (coercedEntries d2s m)"
| "coerced d2s (Sequence xs) = Sequence xs"
| "coercedEntries d2s [] = []"
| "coercedEntries d2s ((k, v) # kvs) = (k, coerced d2s v) # coercedEntries d2s kvs"

text \<open>
  The value trees of the re-encoding result: as \<open>lineValue\<close>, and the text of every
  scalar is also the text of its coercion.
\<close>

fun reencodable :: "(string \<Rightarrow> string) \<Rightarrow> jvalue \<Rightarrow> bool"
  and reencodableEntries :: "(string \<Rightarrow> string) \<Rightarrow> (string \<times> jvalue) list \<Rightarrow> bool"
where
  "reencodable d2s (Scalar p) =
     (lineText (formatValue d2s p) \<and>
      formatValue d2s (parseValue (formatValue d2s p)) = formatValue d2s p)"
| "reencodable d2s (Mapping m) = (keysInOrder [] (map fst m) \<and> reencodableEntries d2s m)"
| "reencodable d2s (Sequence xs) = False"
| "reencodableEntries d2s [] = True"
| "reencodableEntries d2s ((k, v) # kvs) =
     (plainKey k \<and> reencodable d2s v \<and> reencodableEntries d2s kvs)"

text \<open>\<open>encode(decode(text))\<close>, with a fault of the decoder passed on.\<close>

definition reencode :: "(string \<Rightarrow> string) \<Rightarrow> string \<Rightarrow> error + string" where
  "reencode d2s text = (case parse text of Inl e \<Rightarrow> Inl e | Inr v \<Rightarrow> Inr (stringify d2s v 0))"

text \<open>
  The lines that \<open>stringify\<close> emits for the entries of a line value at depth
  \<open>n\<close>, without their line breaks.
\<close>

fun entryLines :: "(string \<Rightarrow> string) \<Rightarrow> (string \<times> jvalue) list \<Rightarrow> nat \<Rightarrow> string list" where
  "entryLines d2s [] n = []"
| "entryLines d2s ((k, Scalar p) # kvs) n =
     (spaces n @ k @ '': '' @ formatValue d2s p) # entryLines d2s kvs n"
| "entryLines d2s ((k, Mapping m) # kvs) n =
     (spaces n @ k @ '':'') # entryLines d2s m (Suc n) @ entryLines d2s kvs n"
| "entryLines d2s ((k, Sequence ys) # kvs) n = entryLines d2s kvs n"

definition unlinesLF :: "string list \<Rightarrow> string" where
  "unlinesLF ls = concat (map (\<lambda>l. l @ [LF]) ls)"

text \<open>
  \<open>reprFrom lb h x v\<close>: in the store \<open>h\<close> the value \<open>x\<close> stands for the tree
  \<open>v\<close>, and every cell of it has an address of at least \<open>lb\<close> and below the
  addresses of the cells it refers to.
\<close>

fun reprFrom :: "nat \<Rightarrow> heap \<Rightarrow> jsval \<Rightarrow> jvalue \<Rightarrow> bool"
  and reprEntries :: "nat \<Rightarrow> heap \<Rightarrow> (string \<times> jsval) list \<Rightarrow> (string \<times> jvalue) list \<Rightarrow> bool"
  and reprItems :: "nat \<Rightarrow> heap \<Rightarrow> jsval list \<Rightarrow> jvalue list \<Rightarrow> bool"
where
  "reprFrom lb h x (Scalar p) = (x = Prim p)"
| "reprFrom lb h x (Mapping m) =
     (case x of
        Ref a \<Rightarrow> lb \<le> a \<and> (case cellAt h a of Some (ObjCell ps) \<Rightarrow> reprEntries (Suc a) h ps m | _ \<Rightarrow> False)
      | Prim p \<Rightarrow> False)"
| "reprFrom lb h x (Sequence ys) =
     (case x of
        Ref a \<Rightarrow> lb \<le> a \<and> (case cellAt h a of Some (ArrCell xs) \<Rightarrow> reprItems (Suc a) h xs ys | _ \<Rightarrow> False)
      | Prim p \<Rightarrow> False)"
| "reprEntries lb h ps [] = (ps = [])"
| "reprEntries lb h ps ((k, v) # m) =
     (case ps of [] \<Rightarrow> False | q # qs \<Rightarrow> fst q = k \<and> reprFrom lb h (snd q) v \<and> reprEntries lb h qs m)"
| "reprItems lb h xs [] = (xs = [])"
| "reprItems lb h xs (v # vs) =
     (case xs of [] \<Rightarrow> False | x # xs' \<Rightarrow> reprFrom lb h x v \<and> reprItems lb h xs' vs)"

text \<open>\<open>grown h pa h'\<close>: the store \<open>h'\<close> extends \<open>h\<close> and agrees with it outside \<open>pa\<close>.\<close>

definition grown :: "heap \<Rightarrow> addr \<Rightarrow> heap \<Rightarrow> bool" where
  "grown h pa h' \<longleftrightarrow> length h \<le> length h' \<and> (\<forall>a < length h. a \<noteq> pa \<longrightarrow> cellAt h' a = cellAt h a)"

section \<open>Lines and documents\<close>

lemma split_nonempty: "split s \<noteq> []"
  by (induction s) (auto split: list.splits)

lemma split_no_LF: "l \<in> set (split s) \<Longrightarrow> LF \<notin> set l"
  by (induction s arbitrary: l) (auto split: list.splits if_splits)

lemma split_append_LF:
  "LF \<notin> set l \<Longrightarrow> split (l @ LF # s) = l # split s"
  by (induction l) (auto split: list.splits)

lemma split_no_LF_id: "LF \<notin> set l \<Longrightarrow> split l = [l]"
  by (induction l) (auto split: list.splits)

lemma split_joinLines:
  "ls \<noteq> [] \<Longrightarrow> \<forall>l \<in> set ls. LF \<notin> set l \<Longrightarrow> split (joinLines ls) = ls"
  by (induction ls rule: joinLines.induct) (auto simp: split_append_LF split_no_LF_id)

lemma dropWhile_retab: "dropWhile isWhitespace (retab l) = dropWhile isWhitespace l"
  by (induction l) (auto simp: isWhitespace_def)

lemma retab_no_LF: "LF \<notin> set l \<Longrightarrow> LF \<notin> set (retab l)"
  by (induction l) auto

lemma trim_retab: "trim (retab l) = trim l"
  by (simp add: trim_def dropWhile_retab)

lemma getIndentLevel_retab: "getIndentLevel (retab l) = getIndentLevel l"
  by (induction l) (auto simp: isWhitespace_def)

lemma parseLine_retab: "parseLine s (retab l) a = parseLine s l a"
  unfolding parseLine_def trim_retab getIndentLevel_retab ..

lemma nextIsItem_retab: "nextIsItem (map retab ls) = nextIsItem ls"
  by (cases ls) (simp_all add: nextIsItem_def trim_retab)

lemma parseLoop_retab: "parseLoop s (map retab ls) = parseLoop s ls"
  by (induction ls arbitrary: s) (simp_all add: parseLine_retab nextIsItem_retab split: sum.splits)

lemma indexOf_neg: "c \<notin> set t \<Longrightarrow> indexOf t c = -1"
  by (induction t) (auto simp: Let_def)

lemma indexOf_le0: "c \<notin> set (tl t) \<Longrightarrow> indexOf t c \<le> 0"
  by (cases t) (auto simp: Let_def indexOf_neg)

lemma parseLine_malformed: "isMalformed l \<Longrightarrow> parseLine s l a = Inr s"
  using indexOf_le0 [of "CHR '':''" "trim l"]
  by (auto simp: parseLine_def isMalformed_def Let_def split: prod.splits)

lemma parseLine_blank: "parseLine s [] a = Inr s"
  by (auto simp: parseLine_def trim_def split: prod.splits)

lemma parseLine_blankMalformed: "parseLine s (blankMalformed l) a = parseLine s l a"
  by (simp add: blankMalformed_def parseLine_malformed parseLine_blank)

lemma nextIsItem_blankMalformed: "nextIsItem (map blankMalformed ls) = nextIsItem ls"
  by (cases ls) (auto simp: nextIsItem_def blankMalformed_def isMalformed_def trim_def startsWith_def)

lemma parseLoop_blankMalformed: "parseLoop s (map blankMalformed ls) = parseLoop s ls"
  by (induction ls arbitrary: s)
     (simp_all add: parseLine_blankMalformed nextIsItem_blankMalformed split: sum.splits)

section \<open>Properties, store cells and trimming\<close>

lemma map_of_updateProp: "k \<in> set (map fst ps) \<Longrightarrow> map_of (updateProp k v ps) k = Some v"
  by (induction ps) auto

lemma map_of_insertIndexProp: "map_of (insertIndexProp k v ps) k = Some v"
  by (induction ps) auto

lemma map_of_setProp: "map_of (setProp ps k v) k = Some v"
proof (cases "k \<in> set (map fst ps)")
  case True
  then show ?thesis by (simp add: setProp_def map_of_updateProp)
next
  case False
  then have "map_of ps k = None" by (simp add: map_of_eq_None_iff)
  with False show ?thesis
    by (simp add: setProp_def map_of_insertIndexProp map_add_def)
qed

lemma readProp_setProp: "readProp (setProp ps k v) k = Own v"
  by (simp add: readProp_def map_of_setProp)

lemma cellAt_Some_less: "cellAt h a = Some c \<Longrightarrow> a < length h"
  by (auto simp: cellAt_def split: if_splits)

lemma cellAt_update_same: "a < length h \<Longrightarrow> cellAt (h[a := c]) a = Some c"
  by (simp add: cellAt_def)

lemma cellAt_update_other: "a \<noteq> b \<Longrightarrow> cellAt (h[a := c]) b = cellAt h b"
  by (simp add: cellAt_def)

lemma cellAt_append_new: "cellAt (h @ [c]) (length h) = Some c"
  by (simp add: cellAt_def)

lemma cellAt_append_old: "a < length h \<Longrightarrow> cellAt (h @ cs) a = cellAt h a"
  by (simp add: cellAt_def nth_append)

lemma handleArrayItem_pending_array:
  assumes "unwind (stack st) w = fr # below"
    and "cellAt (heap st) (obj fr) = Some (ObjCell ps)"
    and "k \<noteq> []" and "readProp ps k = Own (Ref a)"
    and "cellAt (heap st) a = Some (ArrCell xs)"
  shows "handleArrayItem st w v (Some k) =
           Inr \<lparr>heap = (heap st)[a := ArrCell (xs @ [Prim (parseValue v)])], stack = fr # below\<rparr>"
  using assms by (simp add: handleArrayItem_def selectTarget_def pushItem_def)

lemma handleArrayItem_pending_fresh:
  assumes "unwind (stack st) w = fr # below"
    and "cellAt (heap st) (obj fr) = Some (ObjCell ps)"
    and "k \<noteq> []" and "k \<noteq> ''__proto__''" and "truthy (readProp ps k)"
    and "\<not> isArray (heap st) (readProp ps k)"
  shows "handleArrayItem st w v (Some k) =
           Inr \<lparr>heap = (heap st)[obj fr := ObjCell (setProp ps k (Ref (length (heap st))))]
                        @ [ArrCell [Prim (parseValue v)]],
                stack = fr # below\<rparr>"
proof -
  have lt: "obj fr < length (heap st)" using assms(2) by (rule cellAt_Some_less)
  then show ?thesis
    using assms
    by (simp add: handleArrayItem_def selectTarget_def pushItem_def freshArrayAt_def alloc_def
        assignProp_def list_update_append cellAt_def nth_append)
qed

lemma handleArrayItem_items_fresh:
  assumes "unwind (stack st) w = fr # below"
    and "cellAt (heap st) (obj fr) = Some (ObjCell ps)"
    and "case ak of None \<Rightarrow> True | Some k \<Rightarrow> k = [] \<or> \<not> truthy (readProp ps k)"
    and "\<not> lastKeyIsPlaceholder (heap st) ps"
    and "\<not> truthy (readProp ps ''items'')"
  shows "handleArrayItem st w v ak =
           Inr \<lparr>heap = (heap st)[obj fr := ObjCell (setProp ps ''items'' (Ref (length (heap st))))]
                        @ [ArrCell [Prim (parseValue v)]],
                stack = fr # below\<rparr>"
proof -
  have lt: "obj fr < length (heap st)" using assms(2) by (rule cellAt_Some_less)
  then show ?thesis
    using assms
    by (auto simp: handleArrayItem_def selectTarget_def fallbackTarget_def pushItem_def
        freshArrayAt_def alloc_def assignProp_def list_update_append cellAt_def nth_append
        split: option.splits)
qed

lemma handleArrayItem_items_array:
  assumes "unwind (stack st) w = fr # below"
    and "cellAt (heap st) (obj fr) = Some (ObjCell ps)"
    and "case ak of None \<Rightarrow> True | Some k \<Rightarrow> k = [] \<or> \<not> truthy (readProp ps k)"
    and "\<not> lastKeyIsPlaceholder (heap st) ps"
    and "readProp ps ''items'' = Own (Ref a)"
    and "cellAt (heap st) a = Some (ArrCell xs)"
  shows "handleArrayItem st w v ak =
           Inr \<lparr>heap = (heap st)[a := ArrCell (xs @ [Prim (parseValue v)])], stack = fr # below\<rparr>"
  using assms
  by (auto simp: handleArrayItem_def selectTarget_def fallbackTarget_def pushItem_def
      split: option.splits)

lemma trim_Nil_iff: "trim s = [] \<longleftrightarrow> (\<forall>c \<in> set s. isWhitespace c)"
proof -
  have "trim s = [] \<longleftrightarrow> dropWhile isWhitespace (rev (dropWhile isWhitespace s)) = []"
    by (simp add: trim_def)
  also have "\<dots> \<longleftrightarrow> (\<forall>c \<in> set (dropWhile isWhitespace s). isWhitespace c)"
    by simp
  also have "\<dots> \<longleftrightarrow> (\<forall>c \<in> set s. isWhitespace c)"
  proof
    assume a: "\<forall>c \<in> set (dropWhile isWhitespace s). isWhitespace c"
    have "dropWhile isWhitespace s = []"
    proof (rule ccontr)
      assume "dropWhile isWhitespace s \<noteq> []"
      then have "\<not> isWhitespace (hd (dropWhile isWhitespace s))" by (rule hd_dropWhile)
      moreover have "hd (dropWhile isWhitespace s) \<in> set (dropWhile isWhitespace s)"
        using \<open>dropWhile isWhitespace s \<noteq> []\<close> by simp
      ultimately show False using a by blast
    qed
    then show "\<forall>c \<in> set s. isWhitespace c" by simp
  next
    assume "\<forall>c \<in> set s. isWhitespace c"
    then show "\<forall>c \<in> set (dropWhile isWhitespace s). isWhitespace c"
      using set_dropWhileD by fastforce
  qed
  finally show ?thesis .
qed

lemma trim_id: "s \<noteq> [] \<Longrightarrow> \<not> isWhitespace (hd s) \<Longrightarrow> \<not> isWhitespace (last s) \<Longrightarrow> trim s = s"
proof -
  assume a: "s \<noteq> []" "\<not> isWhitespace (hd s)" "\<not> isWhitespace (last s)"
  then have 1: "dropWhile isWhitespace s = s" by (cases s) auto
  from a have "rev s \<noteq> []" "\<not> isWhitespace (hd (rev s))" by (simp_all add: hd_rev)
  then have "dropWhile isWhitespace (rev s) = rev s" by (cases "rev s") auto
  with 1 show ?thesis by (simp add: trim_def)
qed

lemma hd_trim: "trim s \<noteq> [] \<Longrightarrow> \<not> isWhitespace (hd (trim s))"
proof -
  assume a: "trim s \<noteq> []"
  let ?d = "dropWhile isWhitespace s"
  let ?e = "dropWhile isWhitespace (rev ?d)"
  have e: "?e \<noteq> []" using a by (simp add: trim_def)
  have d: "?d \<noteq> []" using e by (cases "?d = []") simp_all
  have hdd: "\<not> isWhitespace (hd ?d)" using d by (rule hd_dropWhile)
  have "rev ?d = takeWhile isWhitespace (rev ?d) @ ?e" by simp
  then have "last ?e = last (rev ?d)" using e by (metis last_appendR)
  then have "last ?e = hd ?d" using d by (simp add: last_rev)
  then have "hd (rev ?e) = hd ?d" using e by (simp add: hd_rev)
  then show ?thesis using hdd by (simp add: trim_def)
qed

lemma last_trim: "trim s \<noteq> [] \<Longrightarrow> \<not> isWhitespace (last (trim s))"
proof -
  assume a: "trim s \<noteq> []"
  let ?e = "dropWhile isWhitespace (rev (dropWhile isWhitespace s))"
  have e: "?e \<noteq> []" using a by (simp add: trim_def)
  then have "\<not> isWhitespace (hd ?e)" by (rule hd_dropWhile)
  then show ?thesis using e by (simp add: trim_def last_rev)
qed

lemma trim_nonempty_if_hd: "s \<noteq> [] \<Longrightarrow> \<not> isWhitespace (hd s) \<Longrightarrow> trim s \<noteq> []"
  using hd_in_set [of s] by (auto simp: trim_Nil_iff)

lemma updateProp_twice: "updateProp k b (updateProp k a ps) = updateProp k b ps"
  by (induction ps) auto

lemma updateProp_keys: "map fst (updateProp k v ps) = map fst ps"
  by (induction ps) auto

lemma updateProp_insertIndexProp:
  "k \<notin> set (map fst ps) \<Longrightarrow> updateProp k b (insertIndexProp k a ps) = insertIndexProp k b ps"
  by (induction ps) auto

lemma updateProp_append_new:
  "k \<notin> set (map fst ps) \<Longrightarrow> updateProp k b (ps @ [(k, a)]) = ps @ [(k, b)]"
  by (induction ps) auto

lemma key_in_insertIndexProp: "k \<in> set (map fst (insertIndexProp k a ps))"
  by (induction ps) auto

lemma setProp_twice: "setProp (setProp ps k a) k b = setProp ps k b"
proof (cases "k \<in> set (map fst ps)")
  case True
  then show ?thesis by (simp add: setProp_def updateProp_keys updateProp_twice)
next
  case False
  show ?thesis
  proof (cases "isArrayIndex k")
    case True
    with False show ?thesis
      using key_in_insertIndexProp [of k a ps]
      by (simp add: setProp_def updateProp_insertIndexProp)
  next
    case False
    with \<open>k \<notin> set (map fst ps)\<close> show ?thesis
      by (simp add: setProp_def updateProp_append_new)
  qed
qed

lemma handleKeyValue_empty:
  assumes "unwind (stack st) w = fr # below"
    and "cellAt (heap st) (obj fr) = Some (ObjCell ps)"
    and "k \<noteq> ''__proto__''"
  shows "handleKeyValue st w k [] =
           Inr \<lparr>heap = (heap st)[obj fr := ObjCell (setProp ps k (Ref (length (heap st))))] @ [ObjCell []],
                stack = \<lparr>obj = length (heap st), indent = w, key = Some k\<rparr> # fr # below\<rparr>"
proof -
  have "obj fr < length (heap st)" using assms(2) by (rule cellAt_Some_less)
  then show ?thesis using assms
    by (simp add: handleKeyValue_def alloc_def assignProp_def list_update_append)
qed

lemma handleKeyValue_scalar:
  assumes "unwind (stack st) w = fr # below"
    and "cellAt (heap st) (obj fr) = Some (ObjCell ps)"
    and "k \<noteq> ''__proto__''" and "v \<noteq> []"
  shows "handleKeyValue st w k v =
           Inr \<lparr>heap = (heap st)[obj fr := ObjCell (setProp ps k (Prim (parseValue v)))],
                stack = fr # below\<rparr>"
  using assms by (simp add: handleKeyValue_def assignProp_def)

lemma startsWith_iff: "startsWith s p \<longleftrightarrow> (\<exists>r. s = p @ r)"
  unfolding startsWith_def
  by (metis append_eq_conv_conj append_take_drop_id)

lemma unwind_push:
  "w' \<le> w \<Longrightarrow> unwind (\<lparr>obj = a, indent = w, key = kk\<rparr> # fr # below) w' = unwind (fr # below) w'"
  by simp

lemma parseLine_pending:
  "parseLine (st, c) line ahead = Inr (st', c') \<Longrightarrow>
   c' = (if ahead then (case emptyValueKey line of None \<Rightarrow> c | Some k \<Rightarrow> Some k) else c)"
  by (auto simp: parseLine_def emptyValueKey_def Let_def split: if_splits sum.splits)

lemma parseLoop_pending:
  "parseLoop (st, c) ls = Inr (st', c') \<Longrightarrow> c' = pendingAfter c ls"
proof (induction ls arbitrary: st c)
  case Nil
  then show ?case by simp
next
  case (Cons l ls)
  show ?case
  proof (cases "parseLine (st, c) l (nextIsItem ls)")
    case (Inl e)
    with Cons.prems show ?thesis by simp
  next
    case (Inr s1)
    obtain st1 c1 where s1: "s1 = (st1, c1)" by (cases s1)
    from Inr s1 have c1: "c1 = (if nextIsItem ls then (case emptyValueKey l of None \<Rightarrow> c | Some k \<Rightarrow> Some k) else c)"
      by (auto dest: parseLine_pending)
    from Cons.prems Inr s1 have "parseLoop (st1, c1) ls = Inr (st', c')" by simp
    then have "c' = pendingAfter c1 ls" by (rule Cons.IH)
    then show ?thesis by (simp add: c1)
  qed
qed

lemma pendingAfter_Some: "pendingAfter (Some k) ls \<noteq> None"
  by (induction ls arbitrary: k) (auto split: option.splits)

lemma pendingAfter_same: "\<not> opensArray ls \<Longrightarrow> pendingAfter c ls = c"
  by (induction ls arbitrary: c) (auto split: option.splits)

lemma parseLine_item:
  "startsWith (trim item) ''- '' \<Longrightarrow>
   parseLine (st, c) item ahead =
     (case handleArrayItem st (getIndentLevel item) (trim (drop 2 (trim item))) c of
        Inl e \<Rightarrow> Inl e | Inr st' \<Rightarrow> Inr (st', c))"
  by (auto simp: parseLine_def Let_def startsWith_iff)

section \<open>Formatting and coercing scalars\<close>

lemma digitsOf_nonempty: "digitsOf n \<noteq> []"
  by (subst digitsOf.simps) simp

lemma digit_cases: "0 \<le> (d::int) \<Longrightarrow> d < 10 \<Longrightarrow> d \<in> {0, 1, 2, 3, 4, 5, 6, 7, 8, 9}"
  by simp arith

lemma isDigit_char_of: "0 \<le> (d::int) \<Longrightarrow> d < 10 \<Longrightarrow> isDigit (char_of (48 + d))"
  by (drule (1) digit_cases) (elim insertE emptyE; hypsubst; code_simp)

lemma digitVal_char_of: "0 \<le> (d::int) \<Longrightarrow> d < 10 \<Longrightarrow> digitVal (char_of (48 + d)) = d"
  by (drule (1) digit_cases) (elim insertE emptyE; hypsubst; code_simp)

lemma digitsOf_digits: "0 \<le> n \<Longrightarrow> list_all isDigit (digitsOf n)"
proof (induction n rule: digitsOf.induct)
  case (1 n)
  show ?case
  proof (cases "n < 10")
    case True
    then show ?thesis using "1.prems" by (subst digitsOf.simps) (simp add: isDigit_char_of)
  next
    case False
    then have "list_all isDigit (digitsOf (n div 10))" using 1 by simp
    then show ?thesis using False by (subst digitsOf.simps) (simp add: isDigit_char_of)
  qed
qed

lemma digitsToInt_snoc: "digitsToInt (ds @ [c]) = 10 * digitsToInt ds + digitVal c"
  by (simp add: digitsToInt_def)

lemma digitsToInt_digitsOf: "0 \<le> n \<Longrightarrow> digitsToInt (digitsOf n) = n"
proof (induction n rule: digitsOf.induct)
  case (1 n)
  show ?case
  proof (cases "n < 10")
    case True
    then show ?thesis using "1.prems"
      by (subst digitsOf.simps) (simp add: digitsToInt_def digitVal_char_of)
  next
    case False
    then have "digitsToInt (digitsOf (n div 10)) = n div 10" using 1 by simp
    then show ?thesis using False
      by (subst digitsOf.simps) (simp add: digitsToInt_snoc digitVal_char_of)
  qed
qed

lemma isDigit_not_special:
  "isDigit c \<Longrightarrow> \<not> isWhitespace c \<and> c \<noteq> LF \<and> c \<noteq> CHR ''-'' \<and> c \<noteq> DQ \<and> c \<noteq> SQ \<and> c \<noteq> CHR ''.''
     \<and> c \<noteq> CHR ''t'' \<and> c \<noteq> CHR ''f'' \<and> c \<noteq> CHR ''n'' \<and> c \<noteq> CHR ''~''"
  by (auto simp: isDigit_def isWhitespace_def)

lemma digits_props:
  assumes "ds \<noteq> []" and "list_all isDigit ds"
  shows "\<not> isWhitespace (hd ds)" and "\<not> isWhitespace (last ds)" and "LF \<notin> set ds"
    and "hd ds \<noteq> CHR ''-''" and "ds \<noteq> ''true''" and "ds \<noteq> ''false''" and "ds \<noteq> ''null''"
    and "ds \<noteq> ''~''"
proof -
  have all: "\<And>c. c \<in> set ds \<Longrightarrow> isDigit c" using assms(2) by (simp add: list_all_iff)
  have h: "hd ds \<in> set ds" and l: "last ds \<in> set ds" using assms(1) by simp_all
  show "\<not> isWhitespace (hd ds)" using all [OF h] isDigit_not_special by blast
  show "\<not> isWhitespace (last ds)" using all [OF l] isDigit_not_special by blast
  show "LF \<notin> set ds" using all isDigit_not_special by blast
  show "hd ds \<noteq> CHR ''-''" using all [OF h] isDigit_not_special by blast
  show "ds \<noteq> ''true''" using assms(2) by (auto simp: isDigit_def)
  show "ds \<noteq> ''false''" using assms(2) by (auto simp: isDigit_def)
  show "ds \<noteq> ''null''" using assms(2) by (auto simp: isDigit_def)
  show "ds \<noteq> ''~''" using assms(2) by (auto simp: isDigit_def)
qed

lemma stripMinus_digits: "ds \<noteq> [] \<Longrightarrow> hd ds \<noteq> CHR ''-'' \<Longrightarrow> stripMinus ds = ds"
  by (cases ds) (simp_all add: stripMinus_def)

lemma parseValue_digits:
  assumes "ds \<noteq> []" and "list_all isDigit ds" and "digitsToInt ds \<le> 9007199254740992"
  shows "parseValue ds = Number (digitsToInt ds)"
proof -
  note p = digits_props [OF assms(1,2)]
  have s: "stripMinus ds = ds" using assms(1) p(4) by (rule stripMinus_digits)
  have "\<not> startsWith ds ''-''" using assms(1) p(4) by (cases ds) (simp_all add: startsWith_def)
  then show ?thesis
    using assms p s by (simp add: parseValue_def isIntegerText_def parseIntText_def Let_def)
qed

lemma parseValue_minus_digits:
  assumes "ds \<noteq> []" and "list_all isDigit ds" and "digitsToInt ds \<le> 9007199254740992"
  shows "parseValue (CHR ''-'' # ds) = Number (- digitsToInt ds)"
  using assms
  by (simp add: parseValue_def isIntegerText_def parseIntText_def Let_def stripMinus_def startsWith_def)

lemma formatValue_Number:
  assumes "\<bar>n\<bar> \<le> 9007199254740992"
  shows "formatValue d2s (Number n) \<noteq> [] \<and>
         \<not> isWhitespace (hd (formatValue d2s (Number n))) \<and>
         \<not> isWhitespace (last (formatValue d2s (Number n))) \<and>
         LF \<notin> set (formatValue d2s (Number n)) \<and>
         parseValue (formatValue d2s (Number n)) = Number n"
proof (cases "n < 0")
  case True
  define ds where "ds = digitsOf (- n)"
  have ne: "ds \<noteq> []" unfolding ds_def by (rule digitsOf_nonempty)
  have dg: "list_all isDigit ds" unfolding ds_def using True by (intro digitsOf_digits) simp
  have val: "digitsToInt ds = - n" using True by (simp add: ds_def digitsToInt_digitsOf)
  note p = digits_props [OF ne dg]
  have f: "intToString n = CHR ''-'' # ds"
    using True by (simp add: intToString_def ds_def)
  have "parseValue (CHR ''-'' # ds) = Number (- digitsToInt ds)"
    using ne dg assms val by (intro parseValue_minus_digits) simp_all
  then show ?thesis
    using p ne val by (simp add: f isWhitespace_def)
next
  case False
  define ds where "ds = digitsOf n"
  have ne: "ds \<noteq> []" unfolding ds_def by (rule digitsOf_nonempty)
  have dg: "list_all isDigit ds" unfolding ds_def using False by (intro digitsOf_digits) simp
  have val: "digitsToInt ds = n" using False by (simp add: ds_def digitsToInt_digitsOf)
  note p = digits_props [OF ne dg]
  have f: "intToString n = ds"
    using False by (simp add: intToString_def ds_def)
  have "parseValue ds = Number (digitsToInt ds)"
    using ne dg assms val by (intro parseValue_digits) simp_all
  then show ?thesis
    using p ne val by (simp add: f)
qed

lemma escapeQuotes_id: "DQ \<notin> set s \<Longrightarrow> escapeQuotes s = s"
  by (induction s) (auto simp: escapeQuotes_def)

lemma endsWith_snoc: "endsWith (s @ [c]) [c]"
  by (simp add: endsWith_def)

lemma parseValue_quoted:
  "parseValue (DQ # s @ [DQ]) = Str s"
proof -
  let ?t = "DQ # s @ [DQ]"
  have 1: "stripMinus ?t = ?t" by (simp add: stripMinus_def)
  have 2: "\<not> isIntegerText ?t" by (simp add: isIntegerText_def 1 isDigit_def)
  have 3: "\<not> isDecimalText ?t" by (simp add: isDecimalText_def 1 isDigit_def)
  have 4: "startsWith ?t [DQ]" by (simp add: startsWith_def)
  have 5: "endsWith ?t [DQ]" using endsWith_snoc [of "DQ # s" DQ] by simp
  have 6: "sliceQuotes ?t = s" by (simp add: sliceQuotes_def butlast_append)
  show ?thesis using 2 3 4 5 6 by (simp add: parseValue_def)
qed

lemma formatValue_Str:
  assumes "plainText s"
  shows "formatValue d2s (Str s) \<noteq> []"
    and "\<not> isWhitespace (hd (formatValue d2s (Str s)))"
    and "\<not> isWhitespace (last (formatValue d2s (Str s)))"
    and "LF \<notin> set (formatValue d2s (Str s))"
    and "parseValue (formatValue d2s (Str s)) = Str s"
proof -
  show "formatValue d2s (Str s) \<noteq> []" using assms by (simp add: plainText_def)
  show "\<not> isWhitespace (hd (formatValue d2s (Str s)))"
    using assms by (auto simp: plainText_def isWhitespace_def split: if_splits)
  show "\<not> isWhitespace (last (formatValue d2s (Str s)))"
    using assms by (auto simp: plainText_def isWhitespace_def split: if_splits)
  show "LF \<notin> set (formatValue d2s (Str s))"
    using assms by (auto simp: plainText_def escapeQuotes_id split: if_splits)
  show "parseValue (formatValue d2s (Str s)) = Str s"
  proof (cases "needsQuotes s")
    case True
    then have "DQ \<notin> set s" using assms by (simp add: plainText_def)
    then show ?thesis using True parseValue_quoted [of s] by (simp add: escapeQuotes_id)
  next
    case False
    then show ?thesis using assms by (auto simp: plainText_def parseValue_def)
  qed
qed

lemma numeric_chars:
  assumes "isIntegerText t \<or> isDecimalText t"
  shows "t \<noteq> []" and "\<And>c. c \<in> set t \<Longrightarrow> isDigit c \<or> c = CHR ''-'' \<or> c = CHR ''.''"
proof -
  have d: "stripMinus t = takeWhile isDigit (stripMinus t) @ dropWhile isDigit (stripMinus t)"
    by simp
  have s: "stripMinus t \<noteq> [] \<and> (\<forall>c \<in> set (stripMinus t). isDigit c \<or> c = CHR ''.'')"
  proof (cases "isIntegerText t")
    case True
    then show ?thesis by (auto simp: isIntegerText_def list_all_iff)
  next
    case False
    then have "isDecimalText t" using assms by simp
    then obtain fr where fr: "dropWhile isDigit (stripMinus t) = CHR ''.'' # fr" "list_all isDigit fr"
      by (auto simp: isDecimalText_def split: list.splits)
    have "\<forall>c \<in> set (takeWhile isDigit (stripMinus t) @ dropWhile isDigit (stripMinus t)).
            isDigit c \<or> c = CHR ''.''"
      unfolding fr using fr(2) by (auto simp: list_all_iff dest: set_takeWhileD)
    moreover have "stripMinus t \<noteq> []" using fr(1) by auto
    ultimately show ?thesis by simp
  qed
  show "t \<noteq> []" using s by (auto simp: stripMinus_def)
  fix c assume "c \<in> set t"
  then show "isDigit c \<or> c = CHR ''-'' \<or> c = CHR ''.''"
    using s by (cases t) (auto simp: stripMinus_def split: if_splits)
qed

lemma numeric_props:
  assumes "isIntegerText t \<or> isDecimalText t"
  shows "t \<noteq> []" and "\<not> isWhitespace (hd t)" and "\<not> isWhitespace (last t)" and "LF \<notin> set t"
    and "t \<noteq> ''true''" and "t \<noteq> ''false''" and "t \<noteq> ''null''" and "t \<noteq> ''~''"
proof -
  note n = numeric_chars [OF assms]
  have ok: "\<And>c. c \<in> set t \<Longrightarrow> \<not> isWhitespace c \<and> c \<noteq> LF \<and> c \<noteq> CHR ''t'' \<and> c \<noteq> CHR ''f'' \<and>
              c \<noteq> CHR ''n'' \<and> c \<noteq> CHR ''~''"
    using n(2) isDigit_not_special by (fastforce simp: isWhitespace_def)
  show "t \<noteq> []" by (rule n(1))
  have h: "hd t \<in> set t" and l: "last t \<in> set t" using n(1) by simp_all
  show "\<not> isWhitespace (hd t)" using ok [OF h] by simp
  show "\<not> isWhitespace (last t)" using ok [OF l] by simp
  show "LF \<notin> set t" using ok by blast
  show "t \<noteq> ''true''" using ok [OF h] by auto
  show "t \<noteq> ''false''" using ok [OF h] by auto
  show "t \<noteq> ''null''" using ok [OF h] by auto
  show "t \<noteq> ''~''" using ok [OF h] by auto
qed

lemma formatValue_Double:
  assumes "d2s t = t" and "doubleText t"
  shows "formatValue d2s (Double t) \<noteq> [] \<and>
         \<not> isWhitespace (hd (formatValue d2s (Double t))) \<and>
         \<not> isWhitespace (last (formatValue d2s (Double t))) \<and>
         LF \<notin> set (formatValue d2s (Double t)) \<and>
         parseValue (formatValue d2s (Double t)) = Double t"
proof -
  have n: "isIntegerText t \<or> isDecimalText t"
    using assms(2) by (auto simp: doubleText_def split: if_splits)
  note p = numeric_props [OF n]
  have "parseValue t = Double t"
    using assms(2) p by (auto simp: doubleText_def parseValue_def parseIntText_def Let_def split: if_splits)
  then show ?thesis using p assms(1) by simp
qed

lemma formatValue_stable:
  assumes "stableScalar d2s p"
  shows "formatValue d2s p \<noteq> []"
    and "\<not> isWhitespace (hd (formatValue d2s p))"
    and "\<not> isWhitespace (last (formatValue d2s p))"
    and "LF \<notin> set (formatValue d2s p)"
    and "parseValue (formatValue d2s p) = p"
proof -
  have "formatValue d2s p \<noteq> [] \<and> \<not> isWhitespace (hd (formatValue d2s p)) \<and>
        \<not> isWhitespace (last (formatValue d2s p)) \<and> LF \<notin> set (formatValue d2s p) \<and>
        parseValue (formatValue d2s p) = p"
  proof (cases p)
    case (Number n)
    then show ?thesis using assms formatValue_Number [of n d2s] by simp
  next
    case (Str s)
    then show ?thesis using assms formatValue_Str [of s d2s] by simp
  next
    case (Double t)
    then show ?thesis using assms formatValue_Double [of d2s t] by simp
  next
    case (Boolean b)
    then show ?thesis
      by (cases b) (simp_all add: isWhitespace_def parseValue_def)
  next
    case Null
    then show ?thesis
      by (simp add: isWhitespace_def parseValue_def)
  qed (use assms in simp_all)
  then show "formatValue d2s p \<noteq> []"
    and "\<not> isWhitespace (hd (formatValue d2s p))"
    and "\<not> isWhitespace (last (formatValue d2s p))"
    and "LF \<notin> set (formatValue d2s p)"
    and "parseValue (formatValue d2s p) = p"
    by simp_all
qed

section \<open>Decoding the lines of an encoded mapping\<close>

lemma spaces_Suc: "spaces (Suc n) = SPC # SPC # spaces n"
  by (simp add: spaces_def)

lemma spaces_whitespace: "c \<in> set (spaces n) \<Longrightarrow> isWhitespace c"
  by (induction n) (auto simp: spaces_def isWhitespace_def)

lemma spaces_no_LF: "LF \<notin> set (spaces n)"
  by (induction n) (auto simp: spaces_def)

lemma getIndentLevel_spaces:
  "s \<noteq> [] \<Longrightarrow> \<not> isWhitespace (hd s) \<Longrightarrow> getIndentLevel (spaces n @ s) = 2 * int n"
proof (induction n)
  case 0
  then show ?case by (cases s) (auto simp: spaces_def isWhitespace_def)
next
  case (Suc n)
  then show ?case by (simp add: spaces_Suc)
qed

lemma trim_leading: "(\<And>c. c \<in> set p \<Longrightarrow> isWhitespace c) \<Longrightarrow> trim (p @ s) = trim s"
  by (simp add: trim_def)

lemma trim_spaces: "trim (spaces n @ s) = trim s"
  by (rule trim_leading) (rule spaces_whitespace)

lemma trim_Nil: "trim [] = []"
  by (simp add: trim_def)

lemma indexOf_append_found: "c \<notin> set k \<Longrightarrow> indexOf (k @ c # r) c = int (length k)"
  by (induction k) (auto simp: Let_def)

lemma plainKey_line_props:
  assumes "plainKey k"
  shows "\<not> startsWith (k @ CHR '':'' # r) ''#''"
    and "\<not> startsWith (k @ CHR '':'' # r) ''- ''"
    and "indexOf (k @ CHR '':'' # r) (CHR '':'') = int (length k)"
    and "trim k = k" and "k \<noteq> []" and "\<not> isWhitespace (hd (k @ CHR '':'' # r))"
proof -
  from assms obtain c cs where k: "k = c # cs" by (cases k) (auto simp: plainKey_def)
  show "\<not> startsWith (k @ CHR '':'' # r) ''#''"
    using assms k by (simp add: plainKey_def startsWith_def)
  show "\<not> startsWith (k @ CHR '':'' # r) ''- ''"
    using assms k by (cases cs) (auto simp: plainKey_def startsWith_def)
  show "indexOf (k @ CHR '':'' # r) (CHR '':'') = int (length k)"
    using assms by (intro indexOf_append_found) (simp add: plainKey_def)
  show "trim k = k" using assms by (intro trim_id) (simp_all add: plainKey_def)
  show "k \<noteq> []" using k by simp
  show "\<not> isWhitespace (hd (k @ CHR '':'' # r))" using assms k by (simp add: plainKey_def)
qed

lemma parseLine_scalar_line:
  assumes "plainKey k" and "lineText (formatValue d2s p)"
    and "unwind stk (2 * int n) = fr # below"
    and "cellAt h (obj fr) = Some (ObjCell ps)"
  shows "parseLine (\<lparr>heap = h, stack = stk\<rparr>, cak) (spaces n @ k @ '': '' @ formatValue d2s p) ahead =
           Inr (\<lparr>heap = h[obj fr := ObjCell (setProp ps k (Prim (parseValue (formatValue d2s p))))],
                 stack = fr # below\<rparr>, cak)"
proof -
  let ?text = "formatValue d2s p"
  let ?t = "k @ CHR '':'' # SPC # ?text"
  have f: "?text \<noteq> []" "\<not> isWhitespace (hd ?text)" "\<not> isWhitespace (last ?text)"
    using assms(2) by (simp_all add: lineText_def)
  note kp = plainKey_line_props [OF assms(1)]
  have tt: "trim ?text = ?text" using f by (intro trim_id)
  have t1: "trim (spaces n @ k @ '': '' @ ?text) = ?t"
  proof -
    have "trim ?t = ?t" using kp(5,6) f by (intro trim_id) simp_all
    then show ?thesis using trim_spaces [of n ?t] by simp
  qed
  have ind: "getIndentLevel (spaces n @ k @ '': '' @ ?text) = 2 * int n"
    using getIndentLevel_spaces [of ?t n] kp(5,6) by simp
  have v: "trim (drop (Suc (length k)) ?t) = ?text"
    using trim_leading [of "[SPC]" ?text] tt by (simp add: isWhitespace_def)
  have kk: "trim (take (length k) ?t) = k" using kp(4) by simp
  have hk: "handleKeyValue \<lparr>heap = h, stack = stk\<rparr> (2 * int n) k ?text =
              Inr \<lparr>heap = h[obj fr := ObjCell (setProp ps k (Prim (parseValue ?text)))], stack = fr # below\<rparr>"
    using handleKeyValue_scalar [of "\<lparr>heap = h, stack = stk\<rparr>" "2 * int n" fr below ps k ?text]
      assms f(1) by (simp add: plainKey_def)
  show ?thesis
    unfolding parseLine_def t1 ind
    using kp(1,2,3,5) v kk hk f(1) by (simp add: Let_def)
qed

lemma parseLine_key_line:
  assumes "plainKey k"
    and "unwind stk (2 * int n) = fr # below"
    and "cellAt h (obj fr) = Some (ObjCell ps)"
  shows "parseLine (\<lparr>heap = h, stack = stk\<rparr>, cak) (spaces n @ k @ '':'') False =
           Inr (\<lparr>heap = h[obj fr := ObjCell (setProp ps k (Ref (length h)))] @ [ObjCell []],
                 stack = \<lparr>obj = length h, indent = 2 * int n, key = Some k\<rparr> # fr # below\<rparr>, cak)"
proof -
  let ?t = "k @ [CHR '':'']"
  note kp = plainKey_line_props [OF assms(1)]
  have t1: "trim (spaces n @ k @ '':'') = ?t"
  proof -
    have "trim ?t = ?t" using kp(5,6) by (intro trim_id) (simp_all add: isWhitespace_def)
    then show ?thesis using trim_spaces [of n ?t] by simp
  qed
  have ind: "getIndentLevel (spaces n @ k @ '':'') = 2 * int n"
    using getIndentLevel_spaces [of ?t n] kp(5,6) by simp
  have kk: "trim (take (length k) ?t) = k" using kp(4) by simp
  have hk: "handleKeyValue \<lparr>heap = h, stack = stk\<rparr> (2 * int n) k [] =
              Inr \<lparr>heap = h[obj fr := ObjCell (setProp ps k (Ref (length h)))] @ [ObjCell []],
                   stack = \<lparr>obj = length h, indent = 2 * int n, key = Some k\<rparr> # fr # below\<rparr>"
    using handleKeyValue_empty [of "\<lparr>heap = h, stack = stk\<rparr>" "2 * int n" fr below ps k]
      assms by (simp add: plainKey_def)
  show ?thesis
    unfolding parseLine_def t1 ind
    using kp(1,2,3,5) kk hk by (simp add: Let_def trim_Nil)
qed

lemma unwind_extra:
  "(\<And>f. f \<in> set extra \<Longrightarrow> w \<le> indent f) \<Longrightarrow> indent fr < w \<Longrightarrow>
   unwind (extra @ fr # below) w = fr # below"
proof (induction extra)
  case Nil
  then show ?case by (cases below) simp_all
next
  case (Cons f extra)
  have "unwind (f # extra @ fr # below) w = unwind (extra @ fr # below) w"
    using Cons.prems(1) [of f] by (cases "extra @ fr # below") simp_all
  then show ?case using Cons by simp
qed

lemma repr_mono:
  "reprFrom lb h x v \<Longrightarrow> lb' \<le> lb \<Longrightarrow> reprFrom lb' h x v"
  "reprEntries lb h ps m \<Longrightarrow> lb' \<le> lb \<Longrightarrow> reprEntries lb' h ps m"
  "reprItems lb h xs vs \<Longrightarrow> lb' \<le> lb \<Longrightarrow> reprItems lb' h xs vs"
proof (induction lb h x v and lb h ps m and lb h xs vs arbitrary: lb' and lb' and lb'
       rule: reprFrom_reprEntries_reprItems.induct)
qed (auto split: jsval.splits option.splits cell.splits list.splits)

lemma repr_frame:
  "reprFrom lb h x v \<Longrightarrow> (\<And>a. lb \<le> a \<Longrightarrow> a < length h \<Longrightarrow> cellAt h' a = cellAt h a)
     \<Longrightarrow> reprFrom lb h' x v"
  "reprEntries lb h ps m \<Longrightarrow> (\<And>a. lb \<le> a \<Longrightarrow> a < length h \<Longrightarrow> cellAt h' a = cellAt h a)
     \<Longrightarrow> reprEntries lb h' ps m"
  "reprItems lb h xs vs \<Longrightarrow> (\<And>a. lb \<le> a \<Longrightarrow> a < length h \<Longrightarrow> cellAt h' a = cellAt h a)
     \<Longrightarrow> reprItems lb h' xs vs"
proof (induction lb h x v and lb h ps m and lb h xs vs
       rule: reprFrom_reprEntries_reprItems.induct)
  case (2 lb h x m)
  from "2.prems"(1) obtain a ps where x: "x = Ref a" and a: "lb \<le> a"
    and c: "cellAt h a = Some (ObjCell ps)" and r: "reprEntries (Suc a) h ps m"
    by (auto split: jsval.splits option.splits cell.splits)
  have lt: "a < length h" using c by (rule cellAt_Some_less)
  have c': "cellAt h' a = Some (ObjCell ps)" using "2.prems"(2) [OF a lt] c by simp
  have "reprEntries (Suc a) h' ps m"
    using a by (intro "2.IH" [OF x c refl r] "2.prems"(2)) simp_all
  then show ?case using x a c' by simp
next
  case (3 lb h x ys)
  from "3.prems"(1) obtain a xs where x: "x = Ref a" and a: "lb \<le> a"
    and c: "cellAt h a = Some (ArrCell xs)" and r: "reprItems (Suc a) h xs ys"
    by (auto split: jsval.splits option.splits cell.splits)
  have lt: "a < length h" using c by (rule cellAt_Some_less)
  have c': "cellAt h' a = Some (ArrCell xs)" using "3.prems"(2) [OF a lt] c by simp
  have "reprItems (Suc a) h' xs ys"
    using a by (intro "3.IH" [OF x c refl r] "3.prems"(2)) simp_all
  then show ?case using x a c' by simp
qed (auto split: list.splits)

lemma repr_reify:
  "reprFrom lb h x v \<Longrightarrow> length h \<le> lb + n \<Longrightarrow> reify n h x = v"
  "reprEntries lb h ps m \<Longrightarrow> length h \<le> lb + n \<Longrightarrow> map (\<lambda>kv. (fst kv, reify n h (snd kv))) ps = m"
  "reprItems lb h xs vs \<Longrightarrow> length h \<le> lb + n \<Longrightarrow> map (reify n h) xs = vs"
proof (induction lb h x v and lb h ps m and lb h xs vs arbitrary: n and n and n
       rule: reprFrom_reprEntries_reprItems.induct)
  case (1 lb h x p)
  then show ?case by simp
next
  case (2 lb h x m)
  from "2.prems"(1) obtain a ps where x: "x = Ref a" and a: "lb \<le> a"
    and c: "cellAt h a = Some (ObjCell ps)" and r: "reprEntries (Suc a) h ps m"
    by (auto split: jsval.splits option.splits cell.splits)
  have "a < length h" using c by (rule cellAt_Some_less)
  with a "2.prems"(2) obtain n' where n: "n = Suc n'" by (cases n) auto
  have "length h \<le> Suc a + n'" using a "2.prems"(2) n by simp
  from "2.IH" [OF x c refl r this] show ?case by (simp add: x n c)
next
  case (3 lb h x ys)
  from "3.prems"(1) obtain a xs where x: "x = Ref a" and a: "lb \<le> a"
    and c: "cellAt h a = Some (ArrCell xs)" and r: "reprItems (Suc a) h xs ys"
    by (auto split: jsval.splits option.splits cell.splits)
  have "a < length h" using c by (rule cellAt_Some_less)
  with a "3.prems"(2) obtain n' where n: "n = Suc n'" by (cases n) auto
  have "length h \<le> Suc a + n'" using a "3.prems"(2) n by simp
  from "3.IH" [OF x c refl r this] show ?case by (simp add: x n c)
next
  case (4 lb h ps)
  then show ?case by simp
next
  case (5 lb h ps k v m)
  then show ?case by (cases ps) auto
next
  case (6 lb h xs)
  then show ?case by simp
next
  case (7 lb h xs v vs)
  then show ?case by (cases xs) auto
qed

lemma nextIsItem_entryLines:
  assumes st: "lineEntries d2s kvs" and nr: "\<not> nextIsItem rest"
  shows "\<not> nextIsItem (entryLines d2s kvs n @ rest)"
proof (cases kvs)
  case Nil
  then show ?thesis using nr by simp
next
  case (Cons kv kvs')
  obtain k v where kv: "kv = (k, v)" by (cases kv)
  from st Cons kv have pk: "plainKey k" and sv: "lineValue d2s v" by simp_all
  note kp = plainKey_line_props [OF pk]
  show ?thesis
  proof (cases v)
    case (Scalar p)
    have "trim (spaces n @ k @ '': '' @ formatValue d2s p) = trim (k @ CHR '':'' # SPC # formatValue d2s p)"
      using trim_spaces [of n "k @ CHR '':'' # SPC # formatValue d2s p"] by simp
    also have "\<dots> = k @ CHR '':'' # SPC # formatValue d2s p"
      using kp(5,6) sv Scalar by (intro trim_id) (simp_all add: lineText_def)
    finally show ?thesis using Cons kv Scalar kp(2) by (simp add: nextIsItem_def)
  next
    case (Mapping m)
    have "trim (spaces n @ k @ '':'') = trim (k @ [CHR '':''])"
      using trim_spaces [of n "k @ [CHR '':'']"] by simp
    also have "\<dots> = k @ [CHR '':'']"
      using kp(5,6) by (intro trim_id) (simp_all add: isWhitespace_def)
    finally show ?thesis using Cons kv Mapping kp(2) by (simp add: nextIsItem_def)
  next
    case (Sequence ys)
    with sv show ?thesis by simp
  qed
qed

lemma insertIndexProp_last:
  "list_all (\<lambda>k'. isArrayIndex k' \<and> digitsToInt k' < digitsToInt k) (map fst ps) \<Longrightarrow>
   insertIndexProp k x ps = ps @ [(k, x)]"
  by (induction ps) auto

lemma setProp_new: "appendable (map fst ps) k \<Longrightarrow> setProp ps k x = ps @ [(k, x)]"
  by (auto simp: setProp_def appendable_def insertIndexProp_last split: if_splits)

lemma grown_refl: "grown h pa h"
  by (simp add: grown_def)

lemma grown_lengthD: "grown h pa h' \<Longrightarrow> length h \<le> length h'"
  by (simp add: grown_def)

lemma grown_cellD: "grown h pa h' \<Longrightarrow> a < length h \<Longrightarrow> a \<noteq> pa \<Longrightarrow> cellAt h' a = cellAt h a"
  by (simp add: grown_def)

lemma grown_update: "grown h pa (h[pa := c])"
  by (simp add: grown_def cellAt_def)

lemma grown_update_append: "grown h pa (h[pa := c] @ cs)"
  by (simp add: grown_def cellAt_def nth_append)

lemma grown_trans: "grown h pa h1 \<Longrightarrow> grown h1 pa h2 \<Longrightarrow> grown h pa h2"
  by (auto simp: grown_def)

lemma grown_trans_new: "grown h pa h1 \<Longrightarrow> grown h1 l h2 \<Longrightarrow> length h \<le> l \<Longrightarrow> grown h pa h2"
  by (auto simp: grown_def)

lemma parseLoop_entryLines:
  assumes "lineEntries d2s kvs" and "keysInOrder (map fst ps) (map fst kvs)"
    and "\<And>f. f \<in> set extra \<Longrightarrow> 2 * int n \<le> indent f" and "indent fr < 2 * int n"
    and "cellAt h (obj fr) = Some (ObjCell ps)" and "\<not> nextIsItem rest"
  shows "\<exists>h' extra' qs.
           parseLoop (\<lparr>heap = h, stack = extra @ fr # below\<rparr>, cak) (entryLines d2s kvs n @ rest) =
             parseLoop (\<lparr>heap = h', stack = extra' @ fr # below\<rparr>, cak) rest \<and>
           (\<forall>f \<in> set extra'. 2 * int n \<le> indent f) \<and> grown h (obj fr) h' \<and>
           cellAt h' (obj fr) = Some (ObjCell (ps @ qs)) \<and> reprEntries (length h) h' qs (coercedEntries d2s kvs)"
  using assms
proof (induction d2s kvs n arbitrary: h extra fr below ps rest rule: entryLines.induct)
  case (1 d2s n)
  have "parseLoop (\<lparr>heap = h, stack = extra @ fr # below\<rparr>, cak) (entryLines d2s [] n @ rest) =
          parseLoop (\<lparr>heap = h, stack = extra @ fr # below\<rparr>, cak) rest \<and>
        (\<forall>f \<in> set extra. 2 * int n \<le> indent f) \<and> grown h (obj fr) h \<and>
        cellAt h (obj fr) = Some (ObjCell (ps @ [])) \<and>
        reprEntries (length h) h [] (coercedEntries d2s [])"
    using "1.prems" by (simp add: grown_refl)
  then show ?case by blast
next
  case (2 d2s k p kvs n)
  let ?pa = "obj fr"
  let ?q = "parseValue (formatValue d2s p)"
  have pk: "plainKey k" and sp: "lineText (formatValue d2s p)" and st: "lineEntries d2s kvs"
    using "2.prems"(1) by simp_all
  let ?ps1 = "ps @ [(k, Prim ?q)]"
  have ap: "appendable (map fst ps) k" and ko: "keysInOrder (map fst ?ps1) (map fst kvs)"
    using "2.prems"(2) by simp_all
  have lt: "?pa < length h" using "2.prems"(5) by (rule cellAt_Some_less)
  let ?h1 = "h[?pa := ObjCell ?ps1]"
  have uw: "unwind (extra @ fr # below) (2 * int n) = fr # below"
    using "2.prems"(3,4) by (rule unwind_extra)
  have sp1: "setProp ps k (Prim ?q) = ?ps1"
    using ap by (rule setProp_new)
  have line: "parseLine (\<lparr>heap = h, stack = extra @ fr # below\<rparr>, cak)
                (spaces n @ k @ '': '' @ formatValue d2s p) (nextIsItem (entryLines d2s kvs n @ rest)) =
              Inr (\<lparr>heap = ?h1, stack = [] @ fr # below\<rparr>, cak)"
    using parseLine_scalar_line [OF pk sp uw "2.prems"(5), of cak] sp1 by simp
  have c1: "cellAt ?h1 ?pa = Some (ObjCell ?ps1)" using lt by (simp add: cellAt_def)
  have "\<exists>h' extra' qs.
           parseLoop (\<lparr>heap = ?h1, stack = [] @ fr # below\<rparr>, cak) (entryLines d2s kvs n @ rest) =
             parseLoop (\<lparr>heap = h', stack = extra' @ fr # below\<rparr>, cak) rest \<and>
           (\<forall>f \<in> set extra'. 2 * int n \<le> indent f) \<and> grown ?h1 ?pa h' \<and>
           cellAt h' ?pa = Some (ObjCell (?ps1 @ qs)) \<and>
           reprEntries (length ?h1) h' qs (coercedEntries d2s kvs)"
    using st ko "2.prems"(4) c1 "2.prems"(6) by (intro "2.IH") simp_all
  then obtain h' extra' qs where
    run: "parseLoop (\<lparr>heap = ?h1, stack = [] @ fr # below\<rparr>, cak) (entryLines d2s kvs n @ rest) =
            parseLoop (\<lparr>heap = h', stack = extra' @ fr # below\<rparr>, cak) rest"
    and ex: "\<forall>f \<in> set extra'. 2 * int n \<le> indent f" and gr: "grown ?h1 ?pa h'"
    and c: "cellAt h' ?pa = Some (ObjCell (?ps1 @ qs))" and rp: "reprEntries (length ?h1) h' qs (coercedEntries d2s kvs)"
    by blast
  have "parseLoop (\<lparr>heap = h, stack = extra @ fr # below\<rparr>, cak)
          (entryLines d2s ((k, Scalar p) # kvs) n @ rest) =
        parseLoop (\<lparr>heap = h', stack = extra' @ fr # below\<rparr>, cak) rest"
    using line run by simp
  moreover have "grown h ?pa h'" using grown_update gr by (rule grown_trans)
  moreover have "cellAt h' ?pa = Some (ObjCell (ps @ (k, Prim ?q) # qs))" using c by simp
  moreover have "reprEntries (length h) h' ((k, Prim ?q) # qs) (coercedEntries d2s ((k, Scalar p) # kvs))"
    using rp by simp
  ultimately show ?case using ex by blast
next
  case (3 d2s k m kvs n)
  let ?pa = "obj fr" and ?l = "length h"
  have pk: "plainKey k" and sm: "lineEntries d2s m" and dm: "keysInOrder [] (map fst m)"
    and st: "lineEntries d2s kvs"
    using "3.prems"(1) by simp_all
  let ?ps1 = "ps @ [(k, Ref ?l)]"
  have ap: "appendable (map fst ps) k" and ko: "keysInOrder (map fst ?ps1) (map fst kvs)"
    using "3.prems"(2) by simp_all
  have lt: "?pa < ?l" using "3.prems"(5) by (rule cellAt_Some_less)
  let ?h1 = "h[?pa := ObjCell ?ps1] @ [ObjCell []]"
  let ?nf = "\<lparr>obj = ?l, indent = 2 * int n, key = Some k\<rparr>"
  let ?rest1 = "entryLines d2s kvs n @ rest"
  have uw: "unwind (extra @ fr # below) (2 * int n) = fr # below"
    using "3.prems"(3,4) by (rule unwind_extra)
  have sp1: "setProp ps k (Ref ?l) = ?ps1"
    using ap by (rule setProp_new)
  have nr1: "\<not> nextIsItem ?rest1" using st "3.prems"(6) by (rule nextIsItem_entryLines)
  have nr0: "\<not> nextIsItem (entryLines d2s m (Suc n) @ ?rest1)" using sm nr1 by (rule nextIsItem_entryLines)
  have line: "parseLine (\<lparr>heap = h, stack = extra @ fr # below\<rparr>, cak)
                (spaces n @ k @ '':'') (nextIsItem (entryLines d2s m (Suc n) @ ?rest1)) =
              Inr (\<lparr>heap = ?h1, stack = [] @ ?nf # fr # below\<rparr>, cak)"
    using parseLine_key_line [OF pk uw "3.prems"(5), of cak] sp1 nr0 by simp
  have l1: "length ?h1 = Suc ?l" by simp
  have cn: "cellAt ?h1 (obj ?nf) = Some (ObjCell [])" by (simp add: cellAt_def nth_append)
  have "\<exists>h' extra' qs.
           parseLoop (\<lparr>heap = ?h1, stack = [] @ ?nf # fr # below\<rparr>, cak) (entryLines d2s m (Suc n) @ ?rest1) =
             parseLoop (\<lparr>heap = h', stack = extra' @ ?nf # fr # below\<rparr>, cak) ?rest1 \<and>
           (\<forall>f \<in> set extra'. 2 * int (Suc n) \<le> indent f) \<and> grown ?h1 (obj ?nf) h' \<and>
           cellAt h' (obj ?nf) = Some (ObjCell ([] @ qs)) \<and>
           reprEntries (length ?h1) h' qs (coercedEntries d2s m)"
    using sm dm cn nr1 by (intro "3.IH"(1)) simp_all
  then obtain h2 extra2 qs2 where
    run2: "parseLoop (\<lparr>heap = ?h1, stack = [] @ ?nf # fr # below\<rparr>, cak) (entryLines d2s m (Suc n) @ ?rest1) =
             parseLoop (\<lparr>heap = h2, stack = extra2 @ ?nf # fr # below\<rparr>, cak) ?rest1"
    and ex2: "\<forall>f \<in> set extra2. 2 * int (Suc n) \<le> indent f" and gr2: "grown ?h1 ?l h2"
    and c2: "cellAt h2 ?l = Some (ObjCell qs2)" and rp2: "reprEntries (Suc ?l) h2 qs2 (coercedEntries d2s m)"
    by auto
  have len2: "Suc ?l \<le> length h2" using grown_lengthD [OF gr2] by simp
  have cp2: "cellAt h2 ?pa = Some (ObjCell ?ps1)"
  proof -
    have "cellAt h2 ?pa = cellAt ?h1 ?pa" using gr2 lt by (intro grown_cellD [where pa = ?l]) simp_all
    then show ?thesis using lt by (simp add: cellAt_def nth_append)
  qed
  have ex2': "\<And>f. f \<in> set (extra2 @ [?nf]) \<Longrightarrow> 2 * int n \<le> indent f"
    using ex2 by auto
  have "\<exists>h' extra' qs.
           parseLoop (\<lparr>heap = h2, stack = (extra2 @ [?nf]) @ fr # below\<rparr>, cak) (entryLines d2s kvs n @ rest) =
             parseLoop (\<lparr>heap = h', stack = extra' @ fr # below\<rparr>, cak) rest \<and>
           (\<forall>f \<in> set extra'. 2 * int n \<le> indent f) \<and> grown h2 ?pa h' \<and>
           cellAt h' ?pa = Some (ObjCell (?ps1 @ qs)) \<and>
           reprEntries (length h2) h' qs (coercedEntries d2s kvs)"
    using st ko ex2' "3.prems"(4) cp2 "3.prems"(6) by (intro "3.IH"(2))
  then obtain h3 extra3 qs3 where
    run3: "parseLoop (\<lparr>heap = h2, stack = (extra2 @ [?nf]) @ fr # below\<rparr>, cak) (entryLines d2s kvs n @ rest) =
             parseLoop (\<lparr>heap = h3, stack = extra3 @ fr # below\<rparr>, cak) rest"
    and ex3: "\<forall>f \<in> set extra3. 2 * int n \<le> indent f" and gr3: "grown h2 ?pa h3"
    and c3: "cellAt h3 ?pa = Some (ObjCell (?ps1 @ qs3))" and rp3: "reprEntries (length h2) h3 qs3 (coercedEntries d2s kvs)"
    by blast
  have "parseLoop (\<lparr>heap = h, stack = extra @ fr # below\<rparr>, cak)
          (entryLines d2s ((k, Mapping m) # kvs) n @ rest) =
        parseLoop (\<lparr>heap = h3, stack = extra3 @ fr # below\<rparr>, cak) rest"
    using line run2 run3 by simp
  moreover have "grown h ?pa h3"
  proof -
    have "grown h ?pa ?h1" by (rule grown_update_append)
    then have "grown h ?pa h2" using gr2 by (rule grown_trans_new) simp
    then show ?thesis using gr3 by (rule grown_trans)
  qed
  moreover have "cellAt h3 ?pa = Some (ObjCell (ps @ (k, Ref ?l) # qs3))" using c3 by simp
  moreover have "reprEntries ?l h3 ((k, Ref ?l) # qs3) (coercedEntries d2s ((k, Mapping m) # kvs))"
  proof -
    have cl3: "cellAt h3 ?l = Some (ObjCell qs2)"
      using grown_cellD [OF gr3, of ?l] len2 lt c2 by simp
    have "reprEntries (Suc ?l) h3 qs2 (coercedEntries d2s m)"
    proof (rule repr_frame(2) [OF rp2])
      fix a assume "Suc ?l \<le> a" and "a < length h2"
      then show "cellAt h3 a = cellAt h2 a" using lt by (intro grown_cellD [OF gr3]) simp_all
    qed
    moreover have "reprEntries ?l h3 qs3 (coercedEntries d2s kvs)"
      using rp3 len2 by (intro repr_mono(2) [OF rp3]) simp
    ultimately show ?thesis using cl3 by simp
  qed
  ultimately show ?case using ex3 by blast
next
  case (4 d2s k ys kvs n)
  then show ?case by simp
qed

lemma unlinesLF_Cons: "unlinesLF (l # ls) = l @ LF # unlinesLF ls"
  by (simp add: unlinesLF_def)

lemma unlinesLF_append: "unlinesLF (xs @ ys) = unlinesLF xs @ unlinesLF ys"
  by (simp add: unlinesLF_def)

lemma split_unlinesLF: "(\<And>l. l \<in> set ls \<Longrightarrow> LF \<notin> set l) \<Longrightarrow> split (unlinesLF ls) = ls @ [[]]"
proof (induction ls)
  case Nil
  then show ?case by (simp add: unlinesLF_def)
next
  case (Cons l ls)
  then show ?case by (simp add: unlinesLF_Cons split_append_LF)
qed

lemma stringifyEntries_lines:
  "lineEntries d2s kvs \<Longrightarrow> stringifyEntries d2s kvs n = unlinesLF (entryLines d2s kvs n)"
  by (induction d2s kvs n rule: entryLines.induct)
     (simp_all add: unlinesLF_Cons unlinesLF_append unlinesLF_def)

lemma plainKey_no_LF: "plainKey k \<Longrightarrow> LF \<notin> set k"
  by (simp add: plainKey_def)

lemma entryLines_no_LF:
  "lineEntries d2s kvs \<Longrightarrow> l \<in> set (entryLines d2s kvs n) \<Longrightarrow> LF \<notin> set l"
  by (induction d2s kvs n rule: entryLines.induct)
     (auto simp: spaces_no_LF plainKey_no_LF lineText_def)

lemma nextIsItem_blank: "\<not> nextIsItem [[]]"
  by (simp add: nextIsItem_def trim_Nil startsWith_def)

lemma parse_stringify_lineValue:
  assumes "lineValue d2s (Mapping m)"
  shows "parse (stringify d2s (Mapping m) 0) = Inr (coerced d2s (Mapping m))"
proof -
  let ?root = "\<lparr>obj = 0, indent = - 1, key = None\<rparr>"
  let ?h0 = "[ObjCell []]"
  have le: "lineEntries d2s m" and dm: "keysInOrder [] (map fst m)" using assms by simp_all
  have sp: "split (stringify d2s (Mapping m) 0) = entryLines d2s m 0 @ [[]]"
    using le entryLines_no_LF [OF le] by (simp add: stringifyEntries_lines split_unlinesLF)
  have "\<exists>h' extra' qs.
           parseLoop (\<lparr>heap = ?h0, stack = [] @ ?root # []\<rparr>, None) (entryLines d2s m 0 @ [[]]) =
             parseLoop (\<lparr>heap = h', stack = extra' @ ?root # []\<rparr>, None) [[]] \<and>
           (\<forall>f \<in> set extra'. 2 * int 0 \<le> indent f) \<and> grown ?h0 (obj ?root) h' \<and>
           cellAt h' (obj ?root) = Some (ObjCell ([] @ qs)) \<and>
           reprEntries (length ?h0) h' qs (coercedEntries d2s m)"
    using le dm nextIsItem_blank by (intro parseLoop_entryLines) (simp_all add: cellAt_def)
  then obtain h' extra' qs where
    run: "parseLoop (\<lparr>heap = ?h0, stack = [?root]\<rparr>, None) (entryLines d2s m 0 @ [[]]) =
            parseLoop (\<lparr>heap = h', stack = extra' @ [?root]\<rparr>, None) [[]]"
    and c: "cellAt h' 0 = Some (ObjCell qs)" and rp: "reprEntries (Suc 0) h' qs (coercedEntries d2s m)"
    by auto
  have fin: "parseLoop (\<lparr>heap = h', stack = extra' @ [?root]\<rparr>, None) [[]] =
               Inr (\<lparr>heap = h', stack = extra' @ [?root]\<rparr>, None)"
    by (simp add: parseLine_blank)
  have "reprFrom 0 h' (Ref 0) (Mapping (coercedEntries d2s m))" using c rp by simp
  then have "reify (length h') h' (Ref 0) = Mapping (coercedEntries d2s m)"
    by (rule repr_reify(1)) simp
  then show ?thesis
    using run fin sp by (simp add: parse_def initialState_def)
qed

lemma stable_line:
  "stableValue d2s v \<Longrightarrow> lineValue d2s v \<and> coerced d2s v = v"
  "stableEntries d2s kvs \<Longrightarrow> lineEntries d2s kvs \<and> coercedEntries d2s kvs = kvs"
proof (induction d2s v and d2s kvs rule: stableValue_stableEntries.induct)
  case (1 d2s p)
  then show ?case using formatValue_stable [of d2s p] by (simp add: lineText_def)
qed simp_all

lemma reencodable_line:
  "reencodable d2s v \<Longrightarrow> lineValue d2s v \<and> stringify d2s (coerced d2s v) n = stringify d2s v n"
  "reencodableEntries d2s kvs \<Longrightarrow>
     lineEntries d2s kvs \<and> stringifyEntries d2s (coercedEntries d2s kvs) n = stringifyEntries d2s kvs n"
proof (induction d2s v and d2s kvs arbitrary: n and n rule: reencodable_reencodableEntries.induct)
  case (5 d2s k v kvs)
  then show ?case by (cases v) simp_all
qed simp_all

lemma stringifyEntries_append:
  "stringifyEntries d2s (xs @ ys) n = stringifyEntries d2s xs n @ stringifyEntries d2s ys n"
proof (induction xs)
  case Nil
  then show ?case by simp
next
  case (Cons x xs)
  obtain k v where x: "x = (k, v)" by (cases x)
  show ?case using Cons by (cases v) (simp_all add: x)
qed

lemma plainText_quoted: "CHR '':'' \<in> set s \<Longrightarrow> DQ \<notin> set s \<Longrightarrow> LF \<notin> set s \<Longrightarrow> plainText s"
  by (simp add: plainText_def needsQuotes_def)

lemma coercedEntries_append:
  "coercedEntries d2s (xs @ ys) = coercedEntries d2s xs @ coercedEntries d2s ys"
proof (induction xs)
  case Nil
  then show ?case by simp
next
  case (Cons x xs)
  then show ?case by (cases x) simp
qed

section \<open>The decoder never gets stuck\<close>

text \<open>
  Every state reached from the initial one is well formed, so \<open>parse\<close> never ends
  in \<open>Stuck\<close>, and a result without fault is a mapping.
\<close>

lemma isObjAt_iff: "isObjAt h a \<longleftrightarrow> (\<exists>ps. cellAt h a = Some (ObjCell ps))"
  by (auto simp: isObjAt_def split: option.splits cell.splits)

lemma isObjAt_update_obj: "isObjAt h b \<Longrightarrow> isObjAt (h[a := ObjCell ps]) b"
  by (cases "a = b") (auto simp: isObjAt_iff cellAt_def split: if_splits)

lemma isObjAt_append: "isObjAt h b \<Longrightarrow> isObjAt (h @ cs) b"
  by (auto simp: isObjAt_iff cellAt_def nth_append split: if_splits)

lemma isObjAt_update_arr:
  "cellAt h a = Some (ArrCell xs) \<Longrightarrow> isObjAt h b \<Longrightarrow> isObjAt (h[a := ArrCell ys]) b"
  by (cases "a = b") (auto simp: isObjAt_iff cellAt_def split: if_splits)

lemma unwind_nonempty: "stk \<noteq> [] \<Longrightarrow> unwind stk w \<noteq> []"
  by (induction stk w rule: unwind.induct) auto

lemma unwind_subset: "f \<in> set (unwind stk w) \<Longrightarrow> f \<in> set stk"
  by (induction stk w rule: unwind.induct) (auto split: if_splits)

lemma wellFormed_unwind:
  assumes "wellFormed st"
  obtains fr below ps where "unwind (stack st) w = fr # below"
    and "cellAt (heap st) (obj fr) = Some (ObjCell ps)"
    and "list_all (\<lambda>f. isObjAt (heap st) (obj f)) (fr # below)"
proof -
  from assms have ne: "unwind (stack st) w \<noteq> []" by (simp add: wellFormed_def unwind_nonempty)
  then obtain fr below where u: "unwind (stack st) w = fr # below" by (cases "unwind (stack st) w") auto
  have all: "list_all (\<lambda>f. isObjAt (heap st) (obj f)) (fr # below)"
    unfolding u [symmetric] using assms unwind_subset [of _ "stack st" w]
    by (auto simp: wellFormed_def list_all_iff)
  then obtain ps where "cellAt (heap st) (obj fr) = Some (ObjCell ps)" by (auto simp: isObjAt_iff)
  with u all show ?thesis using that by blast
qed

lemma handleKeyValue_wellFormed:
  assumes "wellFormed st"
  shows "handleKeyValue st w k v \<noteq> Inl Stuck"
    and "handleKeyValue st w k v = Inr st' \<Longrightarrow> wellFormed st'"
proof -
  from assms obtain fr below ps where u: "unwind (stack st) w = fr # below"
    and c: "cellAt (heap st) (obj fr) = Some (ObjCell ps)"
    and all: "list_all (\<lambda>f. isObjAt (heap st) (obj f)) (fr # below)"
    by (rule wellFormed_unwind)
  have root: "isObjAt (heap st) 0" using assms by (simp add: wellFormed_def)
  show "handleKeyValue st w k v \<noteq> Inl Stuck"
    using u c by (auto simp: handleKeyValue_def alloc_def assignProp_def split: sum.splits)
  assume r: "handleKeyValue st w k v = Inr st'"
  show "wellFormed st'"
  proof (cases "v = []")
    case True
    with r u c have st': "st' = \<lparr>heap = (heap st @ [ObjCell []])[obj fr := ObjCell (setProp ps k (Ref (length (heap st))))],
         stack = \<lparr>obj = length (heap st), indent = w, key = Some k\<rparr> # fr # below\<rparr>"
      by (auto simp: handleKeyValue_def alloc_def assignProp_def split: if_splits)
    have lt: "obj fr < length (heap st)" using c by (rule cellAt_Some_less)
    have new: "isObjAt (heap st') (length (heap st))"
      using lt by (simp add: st' isObjAt_iff cellAt_def)
    have old: "\<And>b. isObjAt (heap st) b \<Longrightarrow> isObjAt (heap st') b"
      by (simp add: st' isObjAt_update_obj isObjAt_append)
    show ?thesis
      using all root new old by (auto simp: wellFormed_def st' list_all_iff)
  next
    case False
    with r u c have st': "st' = \<lparr>heap = (heap st)[obj fr := ObjCell (setProp ps k (Prim (parseValue v)))],
         stack = fr # below\<rparr>"
      by (auto simp: handleKeyValue_def assignProp_def split: if_splits)
    have old: "\<And>b. isObjAt (heap st) b \<Longrightarrow> isObjAt (heap st') b"
      by (simp add: st' isObjAt_update_obj)
    show ?thesis
      using all root old by (auto simp: wellFormed_def st' list_all_iff)
  qed
qed

lemma freshArrayAt_keeps:
  "freshArrayAt h pa ps k = Inr (h1, t) \<Longrightarrow> isObjAt h b \<Longrightarrow> isObjAt h1 b"
  by (auto simp: freshArrayAt_def alloc_def assignProp_def isObjAt_update_obj isObjAt_append
           split: if_splits)

lemma selectTarget_keeps:
  "selectTarget h pa ps ak = Inr (h1, t) \<Longrightarrow> isObjAt h b \<Longrightarrow> isObjAt h1 b"
  by (auto simp: selectTarget_def fallbackTarget_def split: if_splits option.splits
      dest: freshArrayAt_keeps)

lemma pushItem_keeps:
  "pushItem h1 t p = Inr h2 \<Longrightarrow> isObjAt h1 b \<Longrightarrow> isObjAt h2 b"
  by (auto simp: pushItem_def isObjAt_update_arr split: looked.splits jsval.splits option.splits cell.splits)

lemma freshArrayAt_not_Stuck: "freshArrayAt h pa ps k \<noteq> Inl Stuck"
  by (auto simp: freshArrayAt_def alloc_def assignProp_def split: sum.splits)

lemma selectTarget_not_Stuck: "selectTarget h pa ps ak \<noteq> Inl Stuck"
  by (auto simp: selectTarget_def fallbackTarget_def freshArrayAt_not_Stuck split: option.splits)

lemma pushItem_not_Stuck: "pushItem h t p \<noteq> Inl Stuck"
  by (auto simp: pushItem_def split: looked.splits jsval.splits option.splits cell.splits)

lemma handleArrayItem_wellFormed:
  assumes "wellFormed st"
  shows "handleArrayItem st w v ak \<noteq> Inl Stuck"
    and "handleArrayItem st w v ak = Inr st' \<Longrightarrow> wellFormed st'"
proof -
  from assms obtain fr below ps where u: "unwind (stack st) w = fr # below"
    and c: "cellAt (heap st) (obj fr) = Some (ObjCell ps)"
    and all: "list_all (\<lambda>f. isObjAt (heap st) (obj f)) (fr # below)"
    by (rule wellFormed_unwind)
  have root: "isObjAt (heap st) 0" using assms by (simp add: wellFormed_def)
  show "handleArrayItem st w v ak \<noteq> Inl Stuck"
    using u c selectTarget_not_Stuck [of "heap st" "obj fr" ps ak] pushItem_not_Stuck
    by (auto simp: handleArrayItem_def split: sum.splits)
  assume r: "handleArrayItem st w v ak = Inr st'"
  then obtain h1 t h2 where s: "selectTarget (heap st) (obj fr) ps ak = Inr (h1, t)"
    and p: "pushItem h1 t (parseValue v) = Inr h2"
    and st': "st' = \<lparr>heap = h2, stack = fr # below\<rparr>"
    using u c by (auto simp: handleArrayItem_def split: sum.splits)
  have old: "\<And>b. isObjAt (heap st) b \<Longrightarrow> isObjAt h2 b"
    using selectTarget_keeps [OF s] pushItem_keeps [OF p] by blast
  show "wellFormed st'"
    using all root old by (auto simp: wellFormed_def st' list_all_iff)
qed

lemma parseLine_wellFormed:
  assumes "wellFormed st"
  shows "parseLine (st, cak) line ahead \<noteq> Inl Stuck"
    and "parseLine (st, cak) line ahead = Inr (st', cak') \<Longrightarrow> wellFormed st'"
proof -
  show "parseLine (st, cak) line ahead \<noteq> Inl Stuck"
    using handleKeyValue_wellFormed(1) [OF assms] handleArrayItem_wellFormed(1) [OF assms]
    by (auto simp: parseLine_def Let_def split: sum.splits)
  assume "parseLine (st, cak) line ahead = Inr (st', cak')"
  then show "wellFormed st'"
    using assms handleKeyValue_wellFormed(2) [OF assms] handleArrayItem_wellFormed(2) [OF assms]
    by (auto simp: parseLine_def Let_def split: sum.splits if_splits)
qed

lemma parseLoop_wellFormed:
  "wellFormed st \<Longrightarrow> parseLoop (st, cak) ls \<noteq> Inl Stuck \<and>
     (\<forall>st' cak'. parseLoop (st, cak) ls = Inr (st', cak') \<longrightarrow> wellFormed st')"
proof (induction ls arbitrary: st cak)
  case Nil
  then show ?case by simp
next
  case (Cons l ls)
  show ?case
  proof (cases "parseLine (st, cak) l (nextIsItem ls)")
    case (Inl e)
    then show ?thesis using parseLine_wellFormed(1) [OF Cons.prems, of cak l "nextIsItem ls"] by auto
  next
    case (Inr s1)
    obtain st1 c1 where s1: "s1 = (st1, c1)" by (cases s1)
    have "wellFormed st1" using parseLine_wellFormed(2) [OF Cons.prems] Inr s1 by blast
    from Cons.IH [OF this, of c1] show ?thesis using Inr s1 by simp
  qed
qed

lemma wellFormed_initial: "wellFormed (fst initialState)"
  by (simp add: initialState_def wellFormed_def isObjAt_def cellAt_def)

lemma parse_not_Stuck: "parse s \<noteq> Inl Stuck"
  using parseLoop_wellFormed [OF wellFormed_initial, of None "split s"]
  by (auto simp: parse_def initialState_def split: sum.splits)

lemma parse_root_is_mapping: "parse s = Inr v \<Longrightarrow> \<exists>m. v = Mapping m"
proof -
  assume a: "parse s = Inr v"
  then obtain st cak where r: "parseLoop initialState (split s) = Inr (st, cak)"
    and v: "v = reify (length (heap st)) (heap st) (Ref 0)"
    by (auto simp: parse_def split: sum.splits)
  have "wellFormed st"
    using parseLoop_wellFormed [OF wellFormed_initial, of None "split s"] r
    by (simp add: initialState_def)
  then obtain ps where c: "cellAt (heap st) 0 = Some (ObjCell ps)"
    by (auto simp: wellFormed_def isObjAt_iff)
  then have "0 < length (heap st)" by (rule cellAt_Some_less)
  then obtain n where "length (heap st) = Suc n" by (cases "length (heap st)") auto
  then show ?thesis using v c by simp
qed

section \<open>Results on concrete documents\<close>

text \<open>
  C2. The claim: \<open>parse\<close> of \<open>"items:\n  - x\n  - y\n"\<close> binds the key \<open>items\<close> of the
  root to the sequence of \<open>x\<close> and \<open>y\<close>. The code does not: the key line pushes a frame
  for the placeholder object, the indented item lines keep that frame, find no property
  \<open>items\<close> in the placeholder and create the array inside it. The result is
  \<open>{items: {items: [x, y]}}\<close>.
\<close>

theorem C2_items_nested_under_placeholder:
  "parse ''items:\<newline>  - x\<newline>  - y\<newline>'' =
     Inr (Mapping [(''items'', Mapping [(''items'', Sequence [Scalar (Str ''x''), Scalar (Str ''y'')])])])"
  by code_simp

text \<open>
  The same defect on the scenario of the repository's own check (test-comprehensive.ts,
  \<open>Array.isArray(parsedConfig.migration.options.tables)\<close> after \<open>stringify\<close> and
  \<open>parse\<close>): the array written under \<open>tables\<close> comes back as an object with the
  single key \<open>items\<close>.
\<close>

lemma sequence_under_key_not_restored:
  "parse (stringify id (Mapping [(''options'', Mapping [(''tables'',
       Sequence [Scalar (Str ''users''), Scalar (Str ''orders''), Scalar (Str ''products'')])])]) 0) =
     Inr (Mapping [(''options'', Mapping [(''tables'', Mapping [(''items'',
       Sequence [Scalar (Str ''users''), Scalar (Str ''orders''), Scalar (Str ''products'')])])])])"
  by code_simp

text \<open>
  C3. The claim: \<open>parse\<close> raises no fault on any input. The code does on
  \<open>"items: 5\n- x\n"\<close>: the item line finds no placeholder, falls back to the key
  \<open>items\<close>, keeps the number bound there (\<open>parent['items'] || []\<close>) and calls
  \<open>push\<close> on it. Where \<open>parse\<close> does return, the result is a mapping
  (\<open>parse_root_is_mapping\<close>).
\<close>

theorem C3_parse_faults:
  "parse ''items: 5\<newline>- x\<newline>'' = Inl TypeError"
  by code_simp

section \<open>Indentation and malformed lines\<close>

text \<open>
  C8. Decoding a document indented with tabs gives the same result as decoding the
  document in which every tab before the first character that is not white space is
  replaced by two spaces. The equality covers faults as well as values.
\<close>

theorem C8_tabs_as_two_spaces: "parse (retabDocument s) = parse s"
proof -
  have "split (joinLines (map retab (split s))) = map retab (split s)"
    using split_no_LF retab_no_LF by (intro split_joinLines) (auto simp: split_nonempty)
  then show ?thesis
    by (simp add: parse_def retabDocument_def parseLoop_retab)
qed

text \<open>
  C4, as stated: the result equals that of the document with the malformed lines
  removed. This fails, because the look-ahead for a sequence reads the very next
  physical line: in \<open>"k:\nbad\n- x\nz: 1\n- y\n"\<close> the malformed line \<open>bad\<close> stands
  between \<open>k:\<close> and its first item, so no pending array key is recorded and \<open>y\<close> goes
  under a new key \<open>items\<close>; with \<open>bad\<close> removed the key \<open>k\<close> is pending and \<open>y\<close>
  joins \<open>x\<close> under \<open>k\<close>.
\<close>

theorem C4_removal_counterexample:
  "parse (removeMalformedLines ''k:\<newline>bad\<newline>- x\<newline>z: 1\<newline>- y\<newline>'')
     \<noteq> parse ''k:\<newline>bad\<newline>- x\<newline>z: 1\<newline>- y\<newline>''"
  by code_simp

text \<open>
  C4, amended: a malformed line is skipped like a blank line. The result of decoding
  a document equals the result of decoding the document in which every malformed line
  is replaced by an empty line (the lines keep their positions).
\<close>

theorem C4_malformed_lines_as_blank: "parse (blankMalformedLines s) = parse s"
proof -
  have "\<forall>l \<in> set (map blankMalformed (split s)). LF \<notin> set l"
    using split_no_LF by (auto simp: blankMalformed_def)
  then have "split (joinLines (map blankMalformed (split s))) = map blankMalformed (split s)"
    by (intro split_joinLines) (auto simp: split_nonempty)
  then show ?thesis
    by (simp add: parse_def blankMalformedLines_def parseLoop_blankMalformed)
qed

section \<open>Sequence items: target selection\<close>

text \<open>
  A sequence-item line with no applicable pending array key (none recorded, or the
  unwound parent binds it to nothing truthy), whose parent's last key is not bound to
  null, undefined or an empty object, falls back to the key \<open>items\<close> of that
  parent. A fresh array is created there when the parent has no truthy \<open>items\<close>,
  and an array already bound to \<open>items\<close> receives the item.
\<close>

lemma items_fallback_absent_or_array:
  "(\<forall>st w fr below ps ak v.
      unwind (stack st) w = fr # below \<and> cellAt (heap st) (obj fr) = Some (ObjCell ps) \<and>
      (case ak of None \<Rightarrow> True | Some k \<Rightarrow> k = [] \<or> \<not> truthy (readProp ps k)) \<and>
      \<not> lastKeyIsPlaceholder (heap st) ps \<and> \<not> truthy (readProp ps ''items'')
      \<longrightarrow> handleArrayItem st w v ak =
            Inr \<lparr>heap = (heap st)[obj fr := ObjCell (setProp ps ''items'' (Ref (length (heap st))))]
                         @ [ArrCell [Prim (parseValue v)]],
                 stack = fr # below\<rparr>) \<and>
   (\<forall>st w fr below ps ak v a xs.
      unwind (stack st) w = fr # below \<and> cellAt (heap st) (obj fr) = Some (ObjCell ps) \<and>
      (case ak of None \<Rightarrow> True | Some k \<Rightarrow> k = [] \<or> \<not> truthy (readProp ps k)) \<and>
      \<not> lastKeyIsPlaceholder (heap st) ps \<and>
      readProp ps ''items'' = Own (Ref a) \<and> cellAt (heap st) a = Some (ArrCell xs)
      \<longrightarrow> handleArrayItem st w v ak =
            Inr \<lparr>heap = (heap st)[a := ArrCell (xs @ [Prim (parseValue v)])], stack = fr # below\<rparr>)"
proof (intro conjI allI impI)
  fix st :: pstate and w fr below ps ak v
  assume "unwind (stack st) w = fr # below \<and> cellAt (heap st) (obj fr) = Some (ObjCell ps) \<and>
      (case ak of None \<Rightarrow> True | Some k \<Rightarrow> k = [] \<or> \<not> truthy (readProp ps k)) \<and>
      \<not> lastKeyIsPlaceholder (heap st) ps \<and> \<not> truthy (readProp ps ''items'')"
  then show "handleArrayItem st w v ak =
            Inr \<lparr>heap = (heap st)[obj fr := ObjCell (setProp ps ''items'' (Ref (length (heap st))))]
                         @ [ArrCell [Prim (parseValue v)]],
                 stack = fr # below\<rparr>"
    by (intro handleArrayItem_items_fresh) simp_all
next
  fix st :: pstate and w fr below ps ak v a xs
  assume "unwind (stack st) w = fr # below \<and> cellAt (heap st) (obj fr) = Some (ObjCell ps) \<and>
      (case ak of None \<Rightarrow> True | Some k \<Rightarrow> k = [] \<or> \<not> truthy (readProp ps k)) \<and>
      \<not> lastKeyIsPlaceholder (heap st) ps \<and>
      readProp ps ''items'' = Own (Ref a) \<and> cellAt (heap st) a = Some (ArrCell xs)"
  then show "handleArrayItem st w v ak =
            Inr \<lparr>heap = (heap st)[a := ArrCell (xs @ [Prim (parseValue v)])], stack = fr # below\<rparr>"
    by (intro handleArrayItem_items_array[where ps = ps]) simp_all
qed

lemma root_level_list_under_items:
  "parse ''- x\<newline>- y\<newline>'' =
     Inr (Mapping [(''items'', Sequence [Scalar (Str ''x''), Scalar (Str ''y'')])])"
  by code_simp

text \<open>
  C9. The claim: a sequence-item line with no applicable pending array key, whose
  unwound parent's last key is not bound to null, undefined or an empty object, is
  appended under the key \<open>items\<close> of that parent. The code does not when \<open>items\<close>
  is bound to a truthy value that is no array: the fallback keeps that value
  (\<open>parent['items'] || []\<close>) and calls \<open>push\<close> on it. So on the root
  \<open>{items: 5, z: 1}\<close>, with no pending key and the last key \<open>z\<close> bound to 1, the
  item \<open>x\<close> is not appended, and \<open>parse\<close> of \<open>"items:\n  a: 1\n- x\n"\<close>
  faults where the claim puts \<open>x\<close> under \<open>items\<close>. The branch for the pending key
  replaces such a value by a fresh array (\<open>Array.isArray\<close>); the fallback lacks that
  guard. This is the defect of C3.
\<close>

theorem C9_items_fallback_faults:
  "handleArrayItem \<lparr>heap = [ObjCell [(''items'', Prim (Number 5)), (''z'', Prim (Number 1))]],
                    stack = [\<lparr>obj = 0, indent = - 1, key = None\<rparr>]\<rparr> 0 ''x'' None = Inl TypeError \<and>
   parse ''items:\<newline>  a: 1\<newline>- x\<newline>'' = Inl TypeError"
  by code_simp

section \<open>The pending array key\<close>

text \<open>
  C10, as stated: the pending array key set by a key line persists for the rest of the
  scan, and every later sequence-item line whose unwound parent binds that key to a
  truthy value appends to that entry. It does not persist: a later key line with an
  empty value whose next physical line is a sequence item replaces it. In
  \<open>"k:\n- a\nj:\n- b\n- c\n"\<close> the root binds \<open>k\<close> to the array of \<open>a\<close> when the
  items \<open>b\<close> and \<open>c\<close> arrive, and they go to \<open>j\<close>.
\<close>

theorem C10_pending_key_replaced:
  "parse ''k:\<newline>- a\<newline>j:\<newline>- b\<newline>- c\<newline>'' =
     Inr (Mapping [(''k'', Sequence [Scalar (Str ''a'')]),
                   (''j'', Sequence [Scalar (Str ''b''), Scalar (Str ''c'')])])"
  by code_simp

text \<open>
  C10, amended. A pending array key, once recorded, is never cleared, and only a later
  key line with an empty value whose next physical line is a sequence item replaces it,
  by its own key: after the lines \<open>ls\<close> the pending key is \<open>pendingAfter c ls\<close>, which
  is some key when \<open>c\<close> is, and is \<open>c\<close> when no line of \<open>ls\<close> is such a key
  line. Every sequence-item line met while the key \<open>k\<close> is pending, whose unwound
  parent binds \<open>k\<close> to a truthy value, appends to that entry: to the array bound
  there, or, when the value is no array (and \<open>k\<close> is not \<open>__proto__\<close>), to a fresh
  array that replaces it; the key stays pending. In particular
  \<open>"k:\n- a\nx: 1\nk: 5\n- b\n"\<close> decodes to \<open>{k: [b], x: 1}\<close>: the scalar 5 is
  discarded.
\<close>

theorem C10_pending_key_persists:
  "(\<forall>st c ls st' c'. parseLoop (st, c) ls = Inr (st', c') \<longrightarrow> c' = pendingAfter c ls) \<and>
   (\<forall>k ls. pendingAfter (Some k) ls \<noteq> None) \<and>
   (\<forall>c ls. \<not> opensArray ls \<longrightarrow> pendingAfter c ls = c) \<and>
   (\<forall>st item ahead fr below ps k a xs.
      startsWith (trim item) ''- '' \<and>
      unwind (stack st) (getIndentLevel item) = fr # below \<and>
      cellAt (heap st) (obj fr) = Some (ObjCell ps) \<and>
      k \<noteq> [] \<and> readProp ps k = Own (Ref a) \<and> cellAt (heap st) a = Some (ArrCell xs)
      \<longrightarrow> parseLine (st, Some k) item ahead =
            Inr (\<lparr>heap = (heap st)[a := ArrCell (xs @ [Prim (parseValue (trim (drop 2 (trim item))))])],
                  stack = fr # below\<rparr>, Some k)) \<and>
   (\<forall>st item ahead fr below ps k.
      startsWith (trim item) ''- '' \<and>
      unwind (stack st) (getIndentLevel item) = fr # below \<and>
      cellAt (heap st) (obj fr) = Some (ObjCell ps) \<and>
      k \<noteq> [] \<and> k \<noteq> ''__proto__'' \<and> truthy (readProp ps k) \<and> \<not> isArray (heap st) (readProp ps k)
      \<longrightarrow> parseLine (st, Some k) item ahead =
            Inr (\<lparr>heap = (heap st)[obj fr := ObjCell (setProp ps k (Ref (length (heap st))))]
                          @ [ArrCell [Prim (parseValue (trim (drop 2 (trim item))))]],
                  stack = fr # below\<rparr>, Some k)) \<and>
   parse ''k:\<newline>- a\<newline>x: 1\<newline>k: 5\<newline>- b\<newline>'' =
     Inr (Mapping [(''k'', Sequence [Scalar (Str ''b'')]), (''x'', Scalar (Number 1))])"
proof (intro conjI allI impI)
  fix st c ls st' c'
  assume "parseLoop (st, c) ls = Inr (st', c')"
  then show "c' = pendingAfter c ls" by (rule parseLoop_pending)
next
  fix k ls
  show "pendingAfter (Some k) ls \<noteq> None" by (rule pendingAfter_Some)
next
  fix c ls
  assume "\<not> opensArray ls"
  then show "pendingAfter c ls = c" by (rule pendingAfter_same)
next
  fix st :: pstate and item ahead fr below ps k a xs
  assume a: "startsWith (trim item) ''- '' \<and>
      unwind (stack st) (getIndentLevel item) = fr # below \<and>
      cellAt (heap st) (obj fr) = Some (ObjCell ps) \<and>
      k \<noteq> [] \<and> readProp ps k = Own (Ref a) \<and> cellAt (heap st) a = Some (ArrCell xs)"
  then have "handleArrayItem st (getIndentLevel item) (trim (drop 2 (trim item))) (Some k) =
            Inr \<lparr>heap = (heap st)[a := ArrCell (xs @ [Prim (parseValue (trim (drop 2 (trim item))))])],
                 stack = fr # below\<rparr>"
    by (intro handleArrayItem_pending_array [where ps = ps]) simp_all
  then show "parseLine (st, Some k) item ahead =
            Inr (\<lparr>heap = (heap st)[a := ArrCell (xs @ [Prim (parseValue (trim (drop 2 (trim item))))])],
                  stack = fr # below\<rparr>, Some k)"
    using a by (simp add: parseLine_item)
next
  fix st :: pstate and item ahead fr below ps k
  assume a: "startsWith (trim item) ''- '' \<and>
      unwind (stack st) (getIndentLevel item) = fr # below \<and>
      cellAt (heap st) (obj fr) = Some (ObjCell ps) \<and>
      k \<noteq> [] \<and> k \<noteq> ''__proto__'' \<and> truthy (readProp ps k) \<and> \<not> isArray (heap st) (readProp ps k)"
  then have "handleArrayItem st (getIndentLevel item) (trim (drop 2 (trim item))) (Some k) =
            Inr \<lparr>heap = (heap st)[obj fr := ObjCell (setProp ps k (Ref (length (heap st))))]
                         @ [ArrCell [Prim (parseValue (trim (drop 2 (trim item))))]],
                 stack = fr # below\<rparr>"
    by (intro handleArrayItem_pending_fresh) simp_all
  then show "parseLine (st, Some k) item ahead =
            Inr (\<lparr>heap = (heap st)[obj fr := ObjCell (setProp ps k (Ref (length (heap st))))]
                          @ [ArrCell [Prim (parseValue (trim (drop 2 (trim item))))]],
                  stack = fr # below\<rparr>, Some k)"
    using a by (simp add: parseLine_item)
next
  show "parse ''k:\<newline>- a\<newline>x: 1\<newline>k: 5\<newline>- b\<newline>'' =
     Inr (Mapping [(''k'', Sequence [Scalar (Str ''b'')]), (''x'', Scalar (Number 1))])"
    by code_simp
qed

text \<open>
  C10, amended, on two scans. On the lines \<open>k:\<close>, \<open>- a\<close>, \<open>j:\<close>, \<open>- b\<close> the
  pending key ends as \<open>j\<close>. On the tail \<open>x: 1\<close>, \<open>k: 5\<close> of the document above the
  pending key \<open>k\<close> stays, the item \<open>b\<close> replaces the number 5 by a fresh array,
  and a further item \<open>c\<close> would join it.
\<close>

theorem C10_pending_key_persists_witness:
  "parseLoop (\<lparr>heap = [ObjCell []], stack = [\<lparr>obj = 0, indent = - 1, key = None\<rparr>]\<rparr>, None)
       [''k:'', ''- a'', ''j:'', ''- b''] =
     Inr (\<lparr>heap = [ObjCell [(''k'', Ref 2), (''j'', Ref 4)], ObjCell [], ArrCell [Prim (Str ''a'')],
                   ObjCell [], ArrCell [Prim (Str ''b'')]],
           stack = [\<lparr>obj = 0, indent = - 1, key = None\<rparr>]\<rparr>, Some ''j'') \<and>
   pendingAfter None [''k:'', ''- a'', ''j:'', ''- b''] = Some ''j'' \<and>
   pendingAfter (Some ''k'') [''j:'', ''- b''] \<noteq> None \<and>
   \<not> opensArray [''x: 1'', ''k: 5''] \<and>
   pendingAfter (Some ''k'') [''x: 1'', ''k: 5''] = Some ''k'' \<and>
   parseLine (\<lparr>heap = [ObjCell [(''k'', Prim (Number 5)), (''x'', Prim (Number 1))], ObjCell [],
                       ArrCell [Prim (Str ''a'')]],
               stack = [\<lparr>obj = 0, indent = - 1, key = None\<rparr>]\<rparr>, Some ''k'') ''- b'' False =
     Inr (\<lparr>heap = [ObjCell [(''k'', Ref 3), (''x'', Prim (Number 1))], ObjCell [],
                   ArrCell [Prim (Str ''a'')], ArrCell [Prim (Str ''b'')]],
           stack = [\<lparr>obj = 0, indent = - 1, key = None\<rparr>]\<rparr>, Some ''k'') \<and>
   parseLine (\<lparr>heap = [ObjCell [(''k'', Ref 3), (''x'', Prim (Number 1))], ObjCell [],
                       ArrCell [Prim (Str ''a'')], ArrCell [Prim (Str ''b'')]],
               stack = [\<lparr>obj = 0, indent = - 1, key = None\<rparr>]\<rparr>, Some ''k'') ''- c'' False =
     Inr (\<lparr>heap = [ObjCell [(''k'', Ref 3), (''x'', Prim (Number 1))], ObjCell [],
                   ArrCell [Prim (Str ''a'')], ArrCell [Prim (Str ''b''), Prim (Str ''c'')]],
           stack = [\<lparr>obj = 0, indent = - 1, key = None\<rparr>]\<rparr>, Some ''k'')"
proof -
  let ?root = "\<lparr>obj = 0, indent = - 1, key = None\<rparr>"
  let ?s0 = "\<lparr>heap = [ObjCell []], stack = [?root]\<rparr>"
  let ?sj = "\<lparr>heap = [ObjCell [(''k'', Ref 2), (''j'', Ref 4)], ObjCell [], ArrCell [Prim (Str ''a'')],
                      ObjCell [], ArrCell [Prim (Str ''b'')]],
              stack = [?root]\<rparr>"
  let ?ps1 = "[(''k'', Prim (Number 5)), (''x'', Prim (Number 1))]"
  let ?s1 = "\<lparr>heap = [ObjCell ?ps1, ObjCell [], ArrCell [Prim (Str ''a'')]], stack = [?root]\<rparr>"
  let ?ps2 = "[(''k'', Ref 3), (''x'', Prim (Number 1))]"
  let ?s2 = "\<lparr>heap = [ObjCell ?ps2, ObjCell [], ArrCell [Prim (Str ''a'')], ArrCell [Prim (Str ''b'')]],
              stack = [?root]\<rparr>"
  have h1: "parseLoop (?s0, None) [''k:'', ''- a'', ''j:'', ''- b''] = Inr (?sj, Some ''j'')"
    by code_simp
  have h0: "\<not> opensArray [''x: 1'', ''k: 5'']"
    by code_simp
  have h3: "startsWith (trim ''- b'') ''- '' \<and>
      unwind (stack ?s1) (getIndentLevel ''- b'') = ?root # [] \<and>
      cellAt (heap ?s1) (obj ?root) = Some (ObjCell ?ps1) \<and>
      ''k'' \<noteq> [] \<and> ''k'' \<noteq> ''__proto__'' \<and> truthy (readProp ?ps1 ''k'') \<and>
      \<not> isArray (heap ?s1) (readProp ?ps1 ''k'')"
    by code_simp
  have h2: "startsWith (trim ''- c'') ''- '' \<and>
      unwind (stack ?s2) (getIndentLevel ''- c'') = ?root # [] \<and>
      cellAt (heap ?s2) (obj ?root) = Some (ObjCell ?ps2) \<and>
      ''k'' \<noteq> [] \<and> readProp ?ps2 ''k'' = Own (Ref 3) \<and>
      cellAt (heap ?s2) 3 = Some (ArrCell [Prim (Str ''b'')])"
    by code_simp
  have e3: "(heap ?s1)[obj ?root := ObjCell (setProp ?ps1 ''k'' (Ref (length (heap ?s1))))]
              @ [ArrCell [Prim (parseValue (trim (drop 2 (trim ''- b''))))]] = heap ?s2"
    by code_simp
  have e2: "(heap ?s2)[3 := ArrCell ([Prim (Str ''b'')] @ [Prim (parseValue (trim (drop 2 (trim ''- c''))))])] =
              [ObjCell ?ps2, ObjCell [], ArrCell [Prim (Str ''a'')], ArrCell [Prim (Str ''b''), Prim (Str ''c'')]]"
    by code_simp
  note t = C10_pending_key_persists
  from t [THEN conjunct1, rule_format, OF h1]
       t [THEN conjunct2, THEN conjunct1, rule_format, of "''k''" "[''j:'', ''- b'']"]
       t [THEN conjunct2, THEN conjunct2, THEN conjunct1, rule_format, OF h0, of "Some ''k''"]
       t [THEN conjunct2, THEN conjunct2, THEN conjunct2, THEN conjunct2, THEN conjunct1, rule_format, OF h3,
          of False]
       t [THEN conjunct2, THEN conjunct2, THEN conjunct2, THEN conjunct1, rule_format, OF h2, of False]
       h1 h0
  show ?thesis unfolding e3 e2 by simp
qed

section \<open>Key lines with an empty value\<close>

text \<open>
  C5. The claim: a key line with an empty value whose very next physical line is a
  sequence item records the key as pending, binds it to an empty placeholder and
  pushes no frame, and the item line turns the placeholder into the sequence. The code
  pushes a frame: \<open>handleKeyValue\<close> does so for every empty value, and the look-ahead
  of \<open>parse\<close> only sets \<open>currentArrayKey\<close>. On the lines of \<open>"k:\n  - x\n"\<close> the
  line \<open>k:\<close>, with the look-ahead on the line \<open>  - x\<close>, leaves the frame of the
  placeholder above the root frame; the item line, indented below the key, keeps that
  frame as its parent, finds no \<open>k\<close> there and creates an array under \<open>items\<close>
  inside the placeholder. The result is \<open>{k: {items: [x]}}\<close>, not \<open>{k: [x]}\<close>. This
  is the defect of C2.
\<close>

theorem C5_frame_pushed_for_placeholder:
  "nextIsItem [''  - x'', ''''] \<and>
   parseLine initialState ''k:'' (nextIsItem [''  - x'', '''']) =
     Inr (\<lparr>heap = [ObjCell [(''k'', Ref 1)], ObjCell []],
           stack = [\<lparr>obj = 1, indent = 0, key = Some ''k''\<rparr>, \<lparr>obj = 0, indent = - 1, key = None\<rparr>]\<rparr>,
          Some ''k'') \<and>
   parseLoop initialState (split ''k:\<newline>  - x\<newline>'') =
     Inr (\<lparr>heap = [ObjCell [(''k'', Ref 1)], ObjCell [(''items'', Ref 2)], ArrCell [Prim (Str ''x'')]],
           stack = [\<lparr>obj = 1, indent = 0, key = Some ''k''\<rparr>, \<lparr>obj = 0, indent = - 1, key = None\<rparr>]\<rparr>,
          Some ''k'') \<and>
   parse ''k:\<newline>  - x\<newline>'' =
     Inr (Mapping [(''k'', Mapping [(''items'', Sequence [Scalar (Str ''x'')])])])"
  by code_simp

text \<open>
  The placeholder is turned into the sequence only when the item line is indented no
  deeper than the key line, so that the frame of the placeholder is popped before the
  item is stored.
\<close>

lemma placeholder_converted_at_key_indent:
  "parse ''k:\<newline>- x\<newline>'' = Inr (Mapping [(''k'', Sequence [Scalar (Str ''x'')])])"
  by code_simp

section \<open>Round trips\<close>

text \<open>
  C1, as stated: \<open>parse (stringify v) = v\<close> for every value built from null,
  booleans, numbers, strings, nested mappings and sequences of scalars. This fails
  already without sequences: a string is written bare unless it holds one of a few
  special characters, and the bare text \<open>true\<close> is read back as the boolean.
\<close>

theorem C1_round_trip_counterexample:
  "parse (stringify id (Mapping [(''a'', Scalar (Str ''true''))]) 0)
     \<noteq> Inr (Mapping [(''a'', Scalar (Str ''true''))])"
  by code_simp

text \<open>
  C1, amended: for every mapping, nested to any depth, whose keys are plain and stand
  in the order in which an object lists them (no key twice, array indices first and
  ascending) and whose leaves are null, booleans, numbers and plain strings,
  \<open>parse (stringify v) = v\<close>, the keys in their original order. The numbers are the
  integers of magnitude at most \<open>2^53\<close> and every other number that the run time
  writes as a decimal literal or as an integer literal, such as \<open>1.5\<close>, \<open>-0.25\<close>
  or \<open>9007199254740994\<close>; such a number is held under the text that the run time
  writes for it (\<open>d2s t = t\<close>). Mappings that hold sequences are left out.
\<close>

theorem C1_round_trip_stable_mappings:
  "stableValue d2s (Mapping m) \<Longrightarrow> parse (stringify d2s (Mapping m) 0) = Inr (Mapping m)"
  using parse_stringify_lineValue [of d2s m] stable_line(1) [of d2s "Mapping m"] by simp

text \<open>
  C1, amended, on a nested mapping with array-index keys, a negative integer, three
  numbers kept as text and a quoted string.
\<close>

theorem C1_round_trip_stable_mappings_witness:
  "stableValue id (Mapping [(''2'', Scalar (Number (- 7))), (''10'', Scalar (Str ''db'')),
       (''port'', Scalar (Number 3306)), (''ratio'', Scalar (Double ''1.5'')),
       (''opts'', Mapping [(''ssl'', Scalar (Boolean False)), (''note'', Scalar (Str ''a: b'')),
                           (''none'', Scalar Null), (''bias'', Scalar (Double ''-0.25'')),
                           (''big'', Scalar (Double ''9007199254740994''))])]) \<and>
   parse (stringify id (Mapping [(''2'', Scalar (Number (- 7))), (''10'', Scalar (Str ''db'')),
       (''port'', Scalar (Number 3306)), (''ratio'', Scalar (Double ''1.5'')),
       (''opts'', Mapping [(''ssl'', Scalar (Boolean False)), (''note'', Scalar (Str ''a: b'')),
                           (''none'', Scalar Null), (''bias'', Scalar (Double ''-0.25'')),
                           (''big'', Scalar (Double ''9007199254740994''))])]) 0) =
     Inr (Mapping [(''2'', Scalar (Number (- 7))), (''10'', Scalar (Str ''db'')),
       (''port'', Scalar (Number 3306)), (''ratio'', Scalar (Double ''1.5'')),
       (''opts'', Mapping [(''ssl'', Scalar (Boolean False)), (''note'', Scalar (Str ''a: b'')),
                           (''none'', Scalar Null), (''bias'', Scalar (Double ''-0.25'')),
                           (''big'', Scalar (Double ''9007199254740994''))])])"
proof -
  let ?m = "[(''2'', Scalar (Number (- 7))), (''10'', Scalar (Str ''db'')),
       (''port'', Scalar (Number 3306)), (''ratio'', Scalar (Double ''1.5'')),
       (''opts'', Mapping [(''ssl'', Scalar (Boolean False)), (''note'', Scalar (Str ''a: b'')),
                           (''none'', Scalar Null), (''bias'', Scalar (Double ''-0.25'')),
                           (''big'', Scalar (Double ''9007199254740994''))])]"
  have h: "stableValue id (Mapping ?m)" by code_simp
  from h C1_round_trip_stable_mappings [OF h] show ?thesis by blast
qed

text \<open>
  C6, as stated: a string value that holds a colon is written in double quotes, an
  embedded double quote as backslash and double quote, and decoding gives the string
  back. The last part fails for a string with a double quote: \<open>parseValue\<close> only
  strips the outer pair and keeps the backslash.
\<close>

theorem C6_quoted_strings_counterexample:
  "parse (stringify id (Mapping [(''k'', Scalar (Str (''a:'' @ [DQ] @ ''b'')))]) 0)
     \<noteq> Inr (Mapping [(''k'', Scalar (Str (''a:'' @ [DQ] @ ''b'')))])"
  by code_simp

text \<open>
  C6, amended: in the text of a mapping, at any depth, the line of an entry whose
  string value holds a colon is the key, a colon, a space and the value in double
  quotes, every embedded double quote preceded by a backslash. When the value holds no
  double quote, its quoted text is coerced back to the value; and when it holds no
  line break either and stands in a root mapping of plain keys, in the order in which
  an object lists them, and line texts, decoding the encoded mapping gives the string back exactly under its key,
  between the coerced entries before and after it.
\<close>

theorem C6_colon_strings_quoted:
  "(\<forall>d2s kvs1 k s kvs2 n.
      CHR '':'' \<in> set s \<longrightarrow>
      stringifyEntries d2s (kvs1 @ (k, Scalar (Str s)) # kvs2) n =
        stringifyEntries d2s kvs1 n @
        (spaces n @ k @ '': '' @ [DQ] @ escapeQuotes s @ [DQ] @ [LF]) @
        stringifyEntries d2s kvs2 n) \<and>
   (\<forall>d2s s. CHR '':'' \<in> set s \<and> DQ \<notin> set s \<longrightarrow> parseValue (formatValue d2s (Str s)) = Str s) \<and>
   (\<forall>d2s kvs1 k s kvs2.
      CHR '':'' \<in> set s \<and> DQ \<notin> set s \<and> LF \<notin> set s \<and>
      lineValue d2s (Mapping (kvs1 @ (k, Scalar (Str s)) # kvs2)) \<longrightarrow>
      parse (stringify d2s (Mapping (kvs1 @ (k, Scalar (Str s)) # kvs2)) 0) =
        Inr (Mapping (coercedEntries d2s kvs1 @ (k, Scalar (Str s)) # coercedEntries d2s kvs2)))"
proof (intro conjI allI impI)
  fix d2s kvs1 k s kvs2 n
  assume "CHR '':'' \<in> set s"
  then show "stringifyEntries d2s (kvs1 @ (k, Scalar (Str s)) # kvs2) n =
        stringifyEntries d2s kvs1 n @
        (spaces n @ k @ '': '' @ [DQ] @ escapeQuotes s @ [DQ] @ [LF]) @
        stringifyEntries d2s kvs2 n"
    by (simp add: stringifyEntries_append needsQuotes_def)
next
  fix d2s :: "string \<Rightarrow> string" and s
  assume "CHR '':'' \<in> set s \<and> DQ \<notin> set s"
  then show "parseValue (formatValue d2s (Str s)) = Str s"
    using parseValue_quoted [of s] by (simp add: needsQuotes_def escapeQuotes_id)
next
  fix d2s kvs1 k s kvs2
  assume a: "CHR '':'' \<in> set s \<and> DQ \<notin> set s \<and> LF \<notin> set s \<and>
      lineValue d2s (Mapping (kvs1 @ (k, Scalar (Str s)) # kvs2))"
  then have "parseValue (formatValue d2s (Str s)) = Str s"
    using parseValue_quoted [of s] by (simp add: needsQuotes_def escapeQuotes_id)
  then have "coerced d2s (Mapping (kvs1 @ (k, Scalar (Str s)) # kvs2)) =
               Mapping (coercedEntries d2s kvs1 @ (k, Scalar (Str s)) # coercedEntries d2s kvs2)"
    by (simp add: coercedEntries_append)
  then show "parse (stringify d2s (Mapping (kvs1 @ (k, Scalar (Str s)) # kvs2)) 0) =
        Inr (Mapping (coercedEntries d2s kvs1 @ (k, Scalar (Str s)) # coercedEntries d2s kvs2))"
    using a parse_stringify_lineValue [of d2s "kvs1 @ (k, Scalar (Str s)) # kvs2"] by simp
qed

text \<open>C6, amended, on the mapping \<open>{a: 1, note: "a: b"}\<close>.\<close>

theorem C6_colon_strings_quoted_witness:
  "stringifyEntries id ([(''a'', Scalar (Number 1))] @ (''note'', Scalar (Str ''a: b'')) # []) 0 =
     ''a: 1'' @ [LF] @ ''note: '' @ [DQ] @ ''a: b'' @ [DQ] @ [LF] \<and>
   parseValue (formatValue id (Str ''a: b'')) = Str ''a: b'' \<and>
   parse (stringify id (Mapping ([(''a'', Scalar (Number 1))] @ (''note'', Scalar (Str ''a: b'')) # [])) 0) =
     Inr (Mapping [(''a'', Scalar (Number 1)), (''note'', Scalar (Str ''a: b''))])"
proof -
  let ?kvs1 = "[(''a'', Scalar (Number 1))]"
  have h1: "CHR '':'' \<in> set ''a: b''" by simp
  have h2: "CHR '':'' \<in> set ''a: b'' \<and> DQ \<notin> set ''a: b''" by simp
  have h3: "CHR '':'' \<in> set ''a: b'' \<and> DQ \<notin> set ''a: b'' \<and> LF \<notin> set ''a: b'' \<and>
      lineValue id (Mapping (?kvs1 @ (''note'', Scalar (Str ''a: b'')) # []))"
    by code_simp
  have e1: "stringifyEntries id ?kvs1 0 @
        (spaces 0 @ ''note'' @ '': '' @ [DQ] @ escapeQuotes ''a: b'' @ [DQ] @ [LF]) @
        stringifyEntries id [] 0 = ''a: 1'' @ [LF] @ ''note: '' @ [DQ] @ ''a: b'' @ [DQ] @ [LF]"
    by code_simp
  have e3: "Mapping (coercedEntries id ?kvs1 @ (''note'', Scalar (Str ''a: b'')) # coercedEntries id []) =
              Mapping [(''a'', Scalar (Number 1)), (''note'', Scalar (Str ''a: b''))]"
    by code_simp
  note t = C6_colon_strings_quoted
  from t [THEN conjunct1, rule_format, OF h1, of id ?kvs1 "''note''" "[]" 0]
       t [THEN conjunct2, THEN conjunct1, rule_format, OF h2, of id]
       t [THEN conjunct2, THEN conjunct2, rule_format, OF h3]
  show ?thesis unfolding e1 e3 by blast
qed

text \<open>
  C7, as stated: \<open>stringify (parse (stringify v)) = stringify v\<close> for every value.
  This fails for a string with leading white space: it is written bare, the decoder
  trims it, and the second text is shorter.
\<close>

theorem C7_reencode_counterexample:
  "reencode id (stringify id (Mapping [(''a'', Scalar (Str '' x''))]) 0)
     \<noteq> Inr (stringify id (Mapping [(''a'', Scalar (Str '' x''))]) 0)"
  by code_simp

text \<open>
  C7, amended: for every mapping, nested to any depth, whose keys are plain and stand
  in the order in which an object lists them and whose scalars are written as a
  non-empty, trimmed, one-line text that is also the text of its own coercion,
  \<open>stringify (parse (stringify v)) = stringify v\<close>. Mappings that hold sequences are
  left out.
\<close>

theorem C7_reencode_idempotent:
  "reencodable d2s (Mapping m) \<Longrightarrow>
   reencode d2s (stringify d2s (Mapping m) 0) = Inr (stringify d2s (Mapping m) 0)"
  using parse_stringify_lineValue [of d2s m] reencodable_line(1) [of d2s "Mapping m" 0]
  by (simp add: reencode_def)

text \<open>
  C7, amended, on a mapping whose string \<open>true\<close> is read back as a boolean and
  written as the same text.
\<close>

theorem C7_reencode_idempotent_witness:
  "reencodable id (Mapping [(''flag'', Scalar (Str ''true'')), (''n'', Mapping [(''x'', Scalar (Number 5))])]) \<and>
   reencode id (stringify id (Mapping [(''flag'', Scalar (Str ''true'')), (''n'', Mapping [(''x'', Scalar (Number 5))])]) 0) =
     Inr (stringify id (Mapping [(''flag'', Scalar (Str ''true'')), (''n'', Mapping [(''x'', Scalar (Number 5))])]) 0)"
proof -
  let ?m = "[(''flag'', Scalar (Str ''true'')), (''n'', Mapping [(''x'', Scalar (Number 5))])]"
  have h: "reencodable id (Mapping ?m)" by code_simp
  from h C7_reencode_idempotent [OF h] show ?thesis by blast
qed

end
